theory Spec2Isabelle
  imports Complex_Main "HOL-Library.Multiset" "HOL-Library.Sublist" "HOL-Library.Log_Nat"
begin

text \<open>
  The segmented transcription pipeline of \<open>gemini_transcribe.py\<close>
  (\<open>GeminiTranscriber\<close>): inventory, duration probe, segment planner and extractor,
  transcription worker with its retry wrapper, result merger, transcript writer and
  cleanup. External processes, the remote service and the file system are explicit: what
  they answer is a record of functions, what they change is a state passed along. The
  definitions come first, the properties after them.
\<close>

section \<open>Python strings\<close>

text \<open>
  A Python \<open>str\<close> is a sequence of Unicode code points; it is modelled as a list of
  code points (\<open>nat\<close>), so that \<open>strip\<close> removes exactly the characters Python
  treats as whitespace. \<open>lit\<close> turns an ASCII literal into such a string.
\<close>

type_synonym pystr = "nat list"

definition lit :: "string \<Rightarrow> pystr" where
  "lit cs = map of_char cs"

text \<open>\<open>str.isspace\<close> for one code point: the characters \<open>str.strip()\<close> removes.\<close>

definition isspace :: "nat \<Rightarrow> bool" where
  "isspace c \<longleftrightarrow>
     (9 \<le> c \<and> c \<le> 13) \<or> (28 \<le> c \<and> c \<le> 32) \<or> c = 133 \<or> c = 160 \<or> c = 5760 \<or>
     (8192 \<le> c \<and> c \<le> 8202) \<or> c = 8232 \<or> c = 8233 \<or> c = 8239 \<or> c = 8287 \<or> c = 12288"

definition lstrip :: "pystr \<Rightarrow> pystr" where
  "lstrip s = dropWhile isspace s"

definition rstrip :: "pystr \<Rightarrow> pystr" where
  "rstrip s = rev (dropWhile isspace (rev s))"

definition strip :: "pystr \<Rightarrow> pystr" where
  "strip s = rstrip (lstrip s)"

text \<open>
  \<open>str.lower()\<close>. On a string of ASCII characters it maps the letters \<open>A\<close> to \<open>Z\<close>
  and nothing else. On a string with a character outside ASCII the result comes from the
  Unicode tables of the Python runtime, which are not part of the program: it is the
  parameter \<open>unicode_lower\<close>.
\<close>

definition lower_char :: "nat \<Rightarrow> nat" where
  "lower_char c = (if 65 \<le> c \<and> c \<le> 90 then c + 32 else c)"

definition lower :: "(pystr \<Rightarrow> pystr) \<Rightarrow> pystr \<Rightarrow> pystr" where
  "lower unicode_lower s = (if list_all (\<lambda>c. c < 128) s then map lower_char s else unicode_lower s)"

text \<open>Decimal rendering of a non-negative integer, as \<open>str(n)\<close> gives it.\<close>

fun dec :: "nat \<Rightarrow> pystr" where
  "dec n = (if n < 10 then [48 + n] else dec (n div 10) @ [48 + n mod 10])"

declare dec.simps [simp del]

text \<open>\<open>format(n, '0Wd')\<close>: sign first, then zeros up to the width \<open>W\<close>.\<close>

definition zfill :: "nat \<Rightarrow> pystr \<Rightarrow> pystr" where
  "zfill w s = replicate (w - length s) 48 @ s"

definition fmt_0d :: "nat \<Rightarrow> int \<Rightarrow> pystr" where
  "fmt_0d w n = (if n < 0 then 45 # zfill (w - 1) (dec (nat (- n))) else zfill w (dec (nat n)))"

text \<open>
  Durations and offsets are Python floats (IEEE 754 binary64). A float is the real number
  it stands for; comparison and \<open>min\<close> are exact, and the sum and the difference of
  two floats are the exact ones rounded to the nearest float, ties to the even significand
  (\<open>fadd\<close>, \<open>fsub\<close>). \<open>float_exponent x\<close> is the \<open>k\<close> with \<open>2^k \<le> x < 2^(k+1)\<close>; the floats
  near \<open>x\<close> are the multiples of \<open>float_quantum x\<close>, 53 significant bits, with the
  fixed spacing of the subnormal range below \<open>2^-1022\<close>. Infinities and NaN are not
  modelled.
\<close>

definition round_half_even :: "real \<Rightarrow> int" where
  "round_half_even x =
     (let f = \<lfloor>x\<rfloor>; r = x - of_int f
      in if r < 1 / 2 then f else if 1 / 2 < r then f + 1 else if even f then f else f + 1)"

definition pow2 :: "int \<Rightarrow> real" where
  "pow2 k = (if 0 \<le> k then 2 ^ nat k else 1 / 2 ^ nat (- k))"

definition float_exponent :: "real \<Rightarrow> int" where
  "float_exponent x = (if 1 \<le> x then bitlen \<lfloor>x\<rfloor> - 1 else - bitlen (\<lceil>1 / x\<rceil> - 1))"

definition float_quantum :: "real \<Rightarrow> real" where
  "float_quantum x = pow2 (max (float_exponent \<bar>x\<bar>) (- 1022) - 52)"

definition round_double :: "real \<Rightarrow> real" where
  "round_double x =
     (if x = 0 then 0 else of_int (round_half_even (x / float_quantum x)) * float_quantum x)"

definition fadd :: "real \<Rightarrow> real \<Rightarrow> real" where
  "fadd x y = round_double (x + y)"

definition fsub :: "real \<Rightarrow> real \<Rightarrow> real" where
  "fsub x y = round_double (x - y)"

text \<open>\<open>format(x, '.0f')\<close>: the nearest integer, ties to the even one.\<close>

definition fmt_f0 :: "real \<Rightarrow> pystr" where
  "fmt_f0 x = (if x < 0 then 45 # dec (nat (round_half_even (- x))) else dec (nat (round_half_even x)))"

text \<open>\<open>int(x)\<close> on a float truncates towards zero.\<close>

definition py_int :: "real \<Rightarrow> int" where
  "py_int x = (if x < 0 then \<lceil>x\<rceil> else \<lfloor>x\<rfloor>)"

section \<open>Configuration (\<open>GeminiTranscriber.__init__\<close>)\<close>

record config =
  audio_dir :: "pystr list"
  audio_extensions :: "pystr list"
  model_name :: pystr
  max_segment_duration :: real
  max_workers :: int
  max_retries :: int
  retry_delay :: int

definition default_config :: "pystr list \<Rightarrow> config" where
  "default_config dir =
     \<lparr> audio_dir = dir,
       audio_extensions = [lit ''.mp3'', lit ''.wav'', lit ''.m4a'', lit ''.flac'',
                           lit ''.aac'', lit ''.ogg'', lit ''.webm'', lit ''.m4v''],
       model_name = lit ''gemini-2.0-flash-exp'',
       max_segment_duration = 30 * 60,
       max_workers = 5,
       max_retries = 3,
       retry_delay = 2 \<rparr>"

section \<open>The retry wrapper (\<open>_call_gemini_api_with_retry\<close>)\<close>

text \<open>
  What one attempt of the streamed remote call does: it raises, or it delivers chunks
  whose \<open>text\<close> is \<open>None\<close> or a string. A stream that raises part-way is \<open>Raises\<close>:
  the accumulated text of that attempt is discarded by the handler.
\<close>

datatype api_outcome = Raises | Stream "pystr option list"

text \<open>What the wrapper does to the outside world, in order.\<close>

datatype event = ApiCall nat | Sleep int | LogEmpty nat | LogFailed nat | LogFinalFailure

text \<open>
  How the wrapper ends: it returns a text or \<open>None\<close>, or \<open>time.sleep\<close>, called in
  the exception handler with a negative length, raises \<open>ValueError\<close>, which leaves
  the wrapper.
\<close>

datatype call_result = Returned "pystr option" | SleepValueError

definition accumulate :: "pystr option list \<Rightarrow> pystr" where
  "accumulate chunks =
     foldl (\<lambda>full_text chunk.
              case chunk of None \<Rightarrow> full_text
              | Some t \<Rightarrow> if t \<noteq> [] then full_text @ t else full_text) [] chunks"

text \<open>
  The \<open>for attempt in range(max_retries)\<close> loop, over the attempt numbers still to run.
  The sleep sits in the exception handler only.
\<close>

fun retry_loop :: "config \<Rightarrow> (nat \<Rightarrow> api_outcome) \<Rightarrow> nat list \<Rightarrow> event list
                    \<Rightarrow> call_result \<times> event list" where
  "retry_loop cfg api [] tr = (Returned None, tr)"
| "retry_loop cfg api (attempt # rest) tr =
     (case api attempt of
        Stream chunks \<Rightarrow>
          (let full_text = accumulate chunks
           in if strip full_text \<noteq> []
              then (Returned (Some (strip full_text)), tr @ [ApiCall attempt])
              else retry_loop cfg api rest (tr @ [ApiCall attempt, LogEmpty (attempt + 1)]))
      | Raises \<Rightarrow>
          (if int attempt < max_retries cfg - 1
           then (if retry_delay cfg * (int attempt + 1) < 0
                 then (SleepValueError, tr @ [ApiCall attempt, LogFailed (attempt + 1)])
                 else retry_loop cfg api rest
                        (tr @ [ApiCall attempt, LogFailed (attempt + 1),
                               Sleep (retry_delay cfg * (int attempt + 1))]))
           else retry_loop cfg api rest
                  (tr @ [ApiCall attempt, LogFailed (attempt + 1), LogFinalFailure])))"

definition call_gemini_api_with_retry :: "config \<Rightarrow> (nat \<Rightarrow> api_outcome)
                                          \<Rightarrow> call_result \<times> event list" where
  "call_gemini_api_with_retry cfg api = retry_loop cfg api [0 ..< nat (max_retries cfg)] []"

definition api_calls :: "event list \<Rightarrow> nat list" where
  "api_calls tr = concat (map (\<lambda>e. case e of ApiCall n \<Rightarrow> [n] | _ \<Rightarrow> []) tr)"

definition sleeps :: "event list \<Rightarrow> int list" where
  "sleeps tr = concat (map (\<lambda>e. case e of Sleep n \<Rightarrow> [n] | _ \<Rightarrow> []) tr)"

text \<open>Remote services used in the examples: every attempt raises, every attempt is blank.\<close>

definition always_raises :: "nat \<Rightarrow> api_outcome" where
  "always_raises attempt = Raises"

definition always_blank :: "nat \<Rightarrow> api_outcome" where
  "always_blank attempt = Stream [Some (lit '' ''), None]"

section \<open>Paths and the file system\<close>

text \<open>
  A \<open>pathlib.Path\<close> is its list of components; the last one is the name. \<open>suffix\<close>,
  \<open>stem\<close> and \<open>with_suffix\<close> follow \<open>pathlib\<close>: the suffix starts at the last dot of
  the name, unless that dot is the first or the last character.
\<close>

type_synonym path = "pystr list"

definition name :: "path \<Rightarrow> pystr" where
  "name p = (if p = [] then [] else last p)"

definition parent :: "path \<Rightarrow> path" where
  "parent p = butlast p"

definition joinpath :: "path \<Rightarrow> pystr \<Rightarrow> path" where
  "joinpath p n = p @ [n]"

definition rfind :: "nat \<Rightarrow> pystr \<Rightarrow> int" where
  "rfind c s = (if c \<in> set s then int (length s) - 1 - int (length (takeWhile (\<lambda>x. x \<noteq> c) (rev s)))
                else - 1)"

definition suffix_of :: "pystr \<Rightarrow> pystr" where
  "suffix_of n = (let i = rfind 46 n
                  in if 0 < i \<and> i < int (length n) - 1 then drop (nat i) n else [])"

definition path_suffix :: "path \<Rightarrow> pystr" where
  "path_suffix p = suffix_of (name p)"

definition stem :: "path \<Rightarrow> pystr" where
  "stem p = (let n = name p; i = rfind 46 n
             in if 0 < i \<and> i < int (length n) - 1 then take (nat i) n else n)"

text \<open>\<open>with_suffix\<close> raises \<open>ValueError\<close> on a path with an empty name: \<open>None\<close>.\<close>

definition with_suffix :: "path \<Rightarrow> pystr \<Rightarrow> path option" where
  "with_suffix p sfx =
     (if name p = [] then None
      else let old_suffix = path_suffix p;
               n = (if old_suffix = [] then name p @ sfx
                    else take (length (name p) - length old_suffix) (name p) @ sfx)
           in Some (joinpath (parent p) n))"

definition startswith :: "pystr \<Rightarrow> pystr \<Rightarrow> bool" where
  "startswith s pre = (take (length pre) s = pre)"

text \<open>
  The file system: the entries that exist, each a directory or a regular file.
  \<open>rglob\<close> lists every entry below a directory.
\<close>

datatype node = Dir | File

type_synonym filesys = "(path \<times> node) list"

definition path_exists :: "filesys \<Rightarrow> path \<Rightarrow> bool" where
  "path_exists fs p = (p \<in> set (map fst fs))"

definition is_file :: "filesys \<Rightarrow> path \<Rightarrow> bool" where
  "is_file fs p = ((p, File) \<in> set fs)"

definition create_file :: "path \<Rightarrow> filesys \<Rightarrow> filesys" where
  "create_file p fs = (p, File) # filter (\<lambda>e. fst e \<noteq> p) fs"

definition unlink :: "path \<Rightarrow> filesys \<Rightarrow> filesys" where
  "unlink p fs = filter (\<lambda>e. fst e \<noteq> p) fs"

definition rglob :: "filesys \<Rightarrow> path \<Rightarrow> path list" where
  "rglob fs dir = filter (strict_prefix dir) (map fst fs)"

section \<open>The outside world\<close>

text \<open>
  What the runtime, the external processes and the services answer. \<open>unicode_lower\<close>
  is \<open>str.lower()\<close> on strings with a character outside ASCII. \<open>ffprobe\<close>: exit code 0 with a
  duration parsed from its JSON, another exit code, or an exception (the process cannot
  be started, the output does not parse, the field is missing). \<open>ffmpeg\<close>: exit code 0,
  another exit code, or an exception. Reading a segment for transport gives data or
  nothing (the read raises, or the file is empty). The remote call is answered per segment
  file and attempt; \<open>gemini_finished\<close> is the moment the task of a segment completes.
  Opening and writing the transcript: both succeed, \<open>open\<close> raises (no file is made),
  or \<open>open\<close> has made the file and the write raises. \<open>unlink\<close> succeeds or raises.
  \<open>clock\<close> is \<open>time.time()\<close>, \<open>timestamp\<close> the formatted local time.
\<close>

datatype probe_outcome = ProbeOk real | ProbeExitNonZero | ProbeRaises

datatype run_outcome = ExitZero | ExitNonZero | RunRaises

datatype write_outcome = Written | OpenRaises | WriteRaises

record env =
  unicode_lower :: "pystr \<Rightarrow> pystr"
  ffprobe :: "path \<Rightarrow> probe_outcome"
  ffmpeg :: "path \<Rightarrow> real \<Rightarrow> real \<Rightarrow> path \<Rightarrow> run_outcome"
  read_audio :: "path \<Rightarrow> bool"
  gemini :: "path \<Rightarrow> nat \<Rightarrow> api_outcome"
  genai_importable :: bool
  gemini_finished :: "path \<times> real \<times> real \<Rightarrow> real"
  write_file :: "path \<Rightarrow> write_outcome"
  unlink_raises :: "path \<Rightarrow> bool"
  clock :: real
  timestamp :: pystr

text \<open>
  The state: the file system, the \<open>ffmpeg\<close> commands run so far, and the text written
  to each transcript file.
\<close>

record world =
  files :: filesys
  ffmpeg_runs :: "(path \<times> real \<times> real \<times> path) list"
  written :: "(path \<times> pystr) list"

section \<open>Audio inventory\<close>

definition find_audio_files :: "env \<Rightarrow> config \<Rightarrow> filesys \<Rightarrow> path list" where
  "find_audio_files e cfg fs =
     filter (\<lambda>file_path. is_file fs file_path
                \<and> lower (unicode_lower e) (path_suffix file_path) \<in> set (audio_extensions cfg)
                \<and> \<not> startswith (name file_path) (lit ''.''))
            (rglob fs (audio_dir cfg))"

definition get_transcript_path :: "path \<Rightarrow> path option" where
  "get_transcript_path audio_path = with_suffix audio_path (lit ''.txt'')"

text \<open>\<open>None\<close>: \<open>get_transcript_path\<close> raised.\<close>

definition needs_transcription :: "filesys \<Rightarrow> path \<Rightarrow> bool option" where
  "needs_transcription fs audio_path =
     (case get_transcript_path audio_path of
        None \<Rightarrow> None
      | Some transcript_path \<Rightarrow> Some (\<not> path_exists fs transcript_path))"

section \<open>Duration prober and segment planner\<close>

definition get_audio_duration :: "env \<Rightarrow> path \<Rightarrow> real" where
  "get_audio_duration e audio_path =
     (case ffprobe e audio_path of
        ProbeOk duration \<Rightarrow> duration
      | ProbeExitNonZero \<Rightarrow> 0
      | ProbeRaises \<Rightarrow> 0)"

type_synonym segment = "path \<times> real \<times> real"

text \<open>
  The name of the sub-file of the stride that starts at \<open>start_time\<close>:
  \<open>int(start_time // max_segment_duration) + 1\<close>, three digits, then the source's suffix.
  Python computes the float floor division from the exact remainder (\<open>fmod\<close>), which
  gives the floor of the exact quotient as long as that is below \<open>2^53\<close>.
\<close>

definition segment_index :: "config \<Rightarrow> real \<Rightarrow> int" where
  "segment_index cfg start_time =
     py_int (of_int \<lfloor>start_time / max_segment_duration cfg\<rfloor>) + 1"

definition segment_path_of :: "config \<Rightarrow> path \<Rightarrow> real \<Rightarrow> path" where
  "segment_path_of cfg audio_path start_time =
     joinpath (parent audio_path) (fmt_0d 3 (segment_index cfg start_time) @ path_suffix audio_path)"

text \<open>
  \<open>_create_segment_file\<close>. The stem is computed there and not used. A zero threshold
  makes the floor division raise, which the handler turns into \<open>None\<close> before
  \<open>ffmpeg\<close> is run. \<open>ffmpeg\<close> that exits with 0 has written the sub-file; otherwise
  the model leaves the file system as it was.
\<close>

definition create_segment_file :: "env \<Rightarrow> config \<Rightarrow> world \<Rightarrow> path \<Rightarrow> real \<Rightarrow> real
                                   \<Rightarrow> path option \<times> world" where
  "create_segment_file e cfg w audio_path start_time end_time =
     (if max_segment_duration cfg = 0 then (None, w)
      else
        let segment_path = segment_path_of cfg audio_path start_time;
            duration = fsub end_time start_time;
            run = (audio_path, start_time, duration, segment_path);
            w1 = w\<lparr>ffmpeg_runs := ffmpeg_runs w @ [run]\<rparr>
        in case ffmpeg e audio_path start_time duration segment_path of
             ExitZero \<Rightarrow> (Some segment_path, w1\<lparr>files := create_file segment_path (files w1)\<rparr>)
           | ExitNonZero \<Rightarrow> (None, w1)
           | RunRaises \<Rightarrow> (None, w1))"

definition add_segment :: "segment list \<Rightarrow> path option \<Rightarrow> real \<Rightarrow> real \<Rightarrow> segment list" where
  "add_segment segments segment_path current_time end_time =
     (case segment_path of
        None \<Rightarrow> segments
      | Some sp \<Rightarrow> segments @ [(sp, current_time, end_time)])"

text \<open>
  The \<open>while current_time < duration\<close> loop; \<open>current_time + max_segment_duration\<close>
  is a float addition: \<open>current_time\<close> starts as \<open>0.0\<close>, and a threshold that is a
  Python \<open>int\<close> (the default \<open>30 * 60\<close>) is converted to the float of the same
  value. With a threshold that is not positive, or one so small that the sum is rounded
  back to \<open>current_time\<close>, the loop never ends; \<open>None\<close> is that.
\<close>

partial_function (option) split_loop :: "env \<Rightarrow> config \<Rightarrow> path \<Rightarrow> real \<Rightarrow> real \<Rightarrow> segment list
                                          \<Rightarrow> world \<Rightarrow> (segment list \<times> world) option" where
  "split_loop e cfg audio_path duration current_time segments w =
     (if current_time < duration
      then let end_time = min (fadd current_time (max_segment_duration cfg)) duration;
               r = create_segment_file e cfg w audio_path current_time end_time
           in split_loop e cfg audio_path duration end_time
                (add_segment segments (fst r) current_time end_time) (snd r)
      else Some (segments, w))"

definition split_audio_file :: "env \<Rightarrow> config \<Rightarrow> world \<Rightarrow> path \<Rightarrow> (segment list \<times> world) option" where
  "split_audio_file e cfg w audio_path =
     (let duration = get_audio_duration e audio_path
      in if duration \<le> max_segment_duration cfg then Some ([(audio_path, 0, duration)], w)
         else split_loop e cfg audio_path duration 0 [] w)"

section \<open>Segments, and the plan the specification describes\<close>

definition planned_segment :: "config \<Rightarrow> path \<Rightarrow> real \<Rightarrow> nat \<Rightarrow> segment" where
  "planned_segment cfg audio_path duration i =
     (segment_path_of cfg audio_path (real i * max_segment_duration cfg),
      real i * max_segment_duration cfg,
      min (real (Suc i) * max_segment_duration cfg) duration)"

definition seg_path :: "segment \<Rightarrow> path" where "seg_path seg = fst seg"

definition seg_start :: "segment \<Rightarrow> real" where "seg_start seg = fst (snd seg)"

definition seg_end :: "segment \<Rightarrow> real" where "seg_end seg = snd (snd seg)"

definition talk :: path where "talk = [lit ''dl'', lit ''talk.mp3'']"

definition world0 :: world where
  "world0 = \<lparr> files = [([lit ''dl''], Dir), (talk, File)], ffmpeg_runs = [], written = [] \<rparr>"

definition env_ok :: "real \<Rightarrow> env" where
  "env_ok d = \<lparr> unicode_lower = (\<lambda>s. s), ffprobe = (\<lambda>p. ProbeOk d), ffmpeg = (\<lambda>src s l out. ExitZero),
                 read_audio = (\<lambda>p. True), gemini = (\<lambda>p attempt. Stream [Some (lit ''hello'')]),
                 genai_importable = True, gemini_finished = (\<lambda>seg. fst (snd seg)), write_file = (\<lambda>p. Written),
                 unlink_raises = (\<lambda>p. False), clock = 0, timestamp = lit ''2025-01-01 00:00:00'' \<rparr>"

definition env_probe_fails :: env where
  "env_probe_fails = (env_ok 0)\<lparr> ffprobe := (\<lambda>p. ProbeExitNonZero) \<rparr>"

text \<open>
  The floats that Python writes \<open>0.1\<close> and \<open>0.30000000000000004\<close> (the value of
  \<open>0.1 + 0.2\<close>), and a configuration whose threshold is the first.
\<close>

definition tenth :: real where "tenth = 3602879701896397 / 2 ^ 55"

definition three_tenths :: real where "three_tenths = 5404319552844596 / 2 ^ 54"

definition cfg_tenth :: config where
  "cfg_tenth = (default_config [lit ''dl''])\<lparr> max_segment_duration := tenth \<rparr>"

section \<open>Transcription worker and the batch\<close>

record transcription_result =
  r_text :: pystr
  r_start_time :: real
  r_end_time :: real
  r_segment_path :: path
  r_processing_time :: real

text \<open>
  \<open>transcribe_segment_async\<close>: \<open>None\<close> when the segment cannot be read, when the SDK
  cannot be imported (the handler catches it), when the retry wrapper gives nothing, or
  when the wrapper is left by the \<open>ValueError\<close> of \<open>time.sleep\<close> (caught here).
\<close>

definition transcribe_segment_async :: "env \<Rightarrow> config \<Rightarrow> segment \<Rightarrow> transcription_result option" where
  "transcribe_segment_async e cfg segment_info =
     (case segment_info of (segment_path, start_time, end_time) \<Rightarrow>
        if \<not> read_audio e segment_path then None
        else if \<not> genai_importable e then None
        else case fst (call_gemini_api_with_retry cfg (gemini e segment_path)) of
               SleepValueError \<Rightarrow> None
             | Returned None \<Rightarrow> None
             | Returned (Some full_text) \<Rightarrow>
                 if full_text = [] then None
                 else Some \<lparr> r_text = strip full_text, r_start_time = start_time,
                             r_end_time = end_time, r_segment_path = segment_path,
                             r_processing_time = clock e \<rparr>)"

text \<open>
  \<open>transcribe_audio_parallel\<close>: the results are collected in the order in which the
  tasks complete, the missing ones left out, and then sorted by start offset with
  Python's stable \<open>list.sort\<close>.
\<close>

definition as_completed :: "env \<Rightarrow> segment list \<Rightarrow> segment list" where
  "as_completed e tasks = sort_key (gemini_finished e) tasks"

definition sort_results :: "transcription_result list \<Rightarrow> transcription_result list" where
  "sort_results results = sort_key r_start_time results"

definition transcribe_audio_parallel :: "env \<Rightarrow> config \<Rightarrow> segment list \<Rightarrow> transcription_result list" where
  "transcribe_audio_parallel e cfg segments =
     sort_results (List.map_filter (transcribe_segment_async e cfg) (as_completed e segments))"

section \<open>Result merger\<close>

record merged_segment =
  ms_start :: real
  ms_end :: real
  ms_text :: pystr

record merged_result =
  m_text :: pystr
  m_segments :: "merged_segment list"
  m_total_segments :: "nat option"
  m_processing_time :: "real option"

definition block_word :: pystr where
  "block_word = [21312, 22602]"

text \<open>The header line of a block, and the header as the merger appends it.\<close>

definition header_line :: "nat \<Rightarrow> transcription_result \<Rightarrow> pystr" where
  "header_line i result =
     lit ''--- '' @ block_word @ lit '' '' @ dec (i + 1) @ lit '' ('' @ fmt_f0 (r_start_time result)
       @ lit ''s - '' @ fmt_f0 (r_end_time result) @ lit ''s) ---'' @ [10]"

definition block_header :: "nat \<Rightarrow> transcription_result \<Rightarrow> pystr" where
  "block_header i result = [10, 10] @ header_line i result"

text \<open>One round of \<open>for i, result in enumerate(results)\<close>; \<open>n\<close> is \<open>len(results)\<close>.\<close>

definition merge_step :: "nat \<Rightarrow> pystr \<times> merged_segment list \<Rightarrow> nat \<times> transcription_result
                          \<Rightarrow> pystr \<times> merged_segment list" where
  "merge_step n acc ir =
     (case acc of (full_text, merged_segments) \<Rightarrow>
      case ir of (i, result) \<Rightarrow>
        let segment_text = strip (r_text result)
        in if segment_text \<noteq> []
           then ((if 1 < n then full_text @ block_header i result else full_text) @ segment_text,
                 merged_segments @ [\<lparr> ms_start = r_start_time result, ms_end = r_end_time result,
                                       ms_text = segment_text \<rparr>])
           else (full_text, merged_segments))"

definition merge_transcription_results :: "real \<Rightarrow> transcription_result list \<Rightarrow> merged_result" where
  "merge_transcription_results now results =
     (if results = []
      then \<lparr> m_text = [], m_segments = [], m_total_segments = None, m_processing_time = None \<rparr>
      else let acc = foldl (merge_step (length results)) ([], []) (enumerate 0 results)
           in \<lparr> m_text = strip (fst acc), m_segments = snd acc,
                m_total_segments = Some (length results), m_processing_time = Some now \<rparr>)"

section \<open>Transcript writer and cleanup\<close>

definition mmss :: "real \<Rightarrow> pystr" where
  "mmss x = fmt_0d 2 (py_int x div 60) @ lit '':'' @ fmt_0d 2 (py_int x mod 60)"

definition detail_line :: "nat \<times> merged_segment \<Rightarrow> pystr" where
  "detail_line entry =
     (case entry of (i, segment) \<Rightarrow>
        lit ''['' @ block_word @ lit '' '' @ dec i @ lit ''] '' @ mmss (ms_start segment) @ lit '' - ''
          @ mmss (ms_end segment) @ [10] @ strip (ms_text segment) @ [10, 10])"

definition detail_listing :: "merged_segment list \<Rightarrow> pystr" where
  "detail_listing segments =
     (if segments \<noteq> [] \<and> 1 < length segments
      then [35443, 32048, 20998, 27573, 58, 10] @ concat (map detail_line (enumerate 1 segments))
      else [])"

definition transcript_content :: "env \<Rightarrow> config \<Rightarrow> path \<Rightarrow> merged_result \<Rightarrow> pystr" where
  "transcript_content e cfg audio_path result =
     [38899, 38971, 25991, 20214, 58, 32] @ name audio_path @ [10]
     @ [36681, 37636, 26178, 38291, 58, 32] @ timestamp e @ [10]
     @ [20351, 29992, 27169, 22411, 58, 32] @ model_name cfg @ [10]
     @ [34389, 29702, 21312, 22602, 25976, 58, 32]
     @ dec (case m_total_segments result of None \<Rightarrow> 1 | Some n \<Rightarrow> n) @ [10, 10]
     @ [23436, 25972, 25991, 26412, 58, 10] @ strip (m_text result) @ [10, 10]
     @ detail_listing (m_segments result)"

definition save_transcript :: "env \<Rightarrow> config \<Rightarrow> world \<Rightarrow> path \<Rightarrow> merged_result \<Rightarrow> bool \<times> world" where
  "save_transcript e cfg w audio_path result =
     (case get_transcript_path audio_path of
        None \<Rightarrow> (False, w)
      | Some transcript_path \<Rightarrow>
          let transcript_content = transcript_content e cfg audio_path result
          in case write_file e transcript_path of
               Written \<Rightarrow> (True, w\<lparr> files := create_file transcript_path (files w),
                                      written := written w @ [(transcript_path, transcript_content)] \<rparr>)
             | OpenRaises \<Rightarrow> (False, w)
             | WriteRaises \<Rightarrow> (False, w\<lparr> files := create_file transcript_path (files w) \<rparr>))"

definition cleanup_one :: "env \<Rightarrow> path \<Rightarrow> segment \<Rightarrow> filesys \<Rightarrow> filesys" where
  "cleanup_one e original_path seg fs =
     (case seg of (segment_path, s, en) \<Rightarrow>
        if segment_path \<noteq> original_path \<and> path_exists fs segment_path
        then (if unlink_raises e segment_path then fs else unlink segment_path fs)
        else fs)"

definition cleanup_segments :: "env \<Rightarrow> segment list \<Rightarrow> path \<Rightarrow> filesys \<Rightarrow> filesys" where
  "cleanup_segments e segments original_path fs = fold (cleanup_one e original_path) segments fs"

section \<open>One audio file (\<open>process_audio_file_async\<close>)\<close>

text \<open>
  \<open>None\<close>: the call does not return (the planner's loop does not end). An exception
  inside is caught and gives \<open>False\<close>.
\<close>

definition process_audio_file_async :: "env \<Rightarrow> config \<Rightarrow> world \<Rightarrow> path \<Rightarrow> (bool \<times> world) option" where
  "process_audio_file_async e cfg w audio_path =
     (case needs_transcription (files w) audio_path of
        None \<Rightarrow> Some (False, w)
      | Some False \<Rightarrow> Some (True, w)
      | Some True \<Rightarrow>
          (case split_audio_file e cfg w audio_path of
             None \<Rightarrow> None
           | Some (segments, w1) \<Rightarrow>
               if segments = [] then Some (False, w1)
               else let results = transcribe_audio_parallel e cfg segments
                    in if results = [] then Some (False, w1)
                       else let merged_result = merge_transcription_results (clock e) results;
                                saved = save_transcript e cfg w1 audio_path merged_result
                            in if fst saved
                               then Some (True, (snd saved)\<lparr> files :=
                                      cleanup_segments e segments audio_path (files (snd saved)) \<rparr>)
                               else Some (False, snd saved)))"

section \<open>Notions used to state the merger's properties, and example results\<close>

definition nonblank :: "transcription_result \<Rightarrow> bool" where
  "nonblank result = (strip (r_text result) \<noteq> [])"

definition block_text :: "nat \<Rightarrow> nat \<times> transcription_result \<Rightarrow> pystr" where
  "block_text n ir =
     (if nonblank (snd ir)
      then (if 1 < n then block_header (fst ir) (snd ir) else []) @ strip (r_text (snd ir))
      else [])"

definition as_merged_segment :: "transcription_result \<Rightarrow> merged_segment" where
  "as_merged_segment result =
     \<lparr> ms_start = r_start_time result, ms_end = r_end_time result, ms_text = strip (r_text result) \<rparr>"



definition res_1 :: transcription_result where
  "res_1 = \<lparr> r_text = lit ''first'', r_start_time = 0, r_end_time = 1800,
             r_segment_path = [lit ''dl'', lit ''001.mp3''], r_processing_time = 0 \<rparr>"

definition res_2 :: transcription_result where
  "res_2 = \<lparr> r_text = lit ''second'', r_start_time = 1800, r_end_time = 2700,
             r_segment_path = [lit ''dl'', lit ''002.mp3''], r_processing_time = 0 \<rparr>"

definition plan3 :: "segment list" where
  "plan3 = [([lit ''dl'', lit ''001.mp3''], 0, 1800), ([lit ''dl'', lit ''002.mp3''], 1800, 3600),
            ([lit ''dl'', lit ''003.mp3''], 3600, 5400)]"

definition env_second_fails :: env where
  "env_second_fails = (env_ok 5400)\<lparr> gemini := (\<lambda>p attempt.
       if p = [lit ''dl'', lit ''002.mp3''] then Raises else Stream [Some (lit ''text of '' @ name p)]) \<rparr>"

definition res_first :: transcription_result where
  "res_first = \<lparr> r_text = lit ''text of 001.mp3'', r_start_time = 0, r_end_time = 1800,
                 r_segment_path = [lit ''dl'', lit ''001.mp3''], r_processing_time = 0 \<rparr>"

definition res_third :: transcription_result where
  "res_third = \<lparr> r_text = lit ''text of 003.mp3'', r_start_time = 3600, r_end_time = 5400,
                 r_segment_path = [lit ''dl'', lit ''003.mp3''], r_processing_time = 0 \<rparr>"

section \<open>What planning changes in the world, and example environments\<close>

definition planner_inv :: "config \<Rightarrow> path \<Rightarrow> world \<Rightarrow> segment list \<Rightarrow> world \<Rightarrow> bool" where
  "planner_inv cfg p w segs w' \<longleftrightarrow>
     written w' = written w
     \<and> list_all (\<lambda>seg. \<exists>s. seg_path seg = segment_path_of cfg p s) segs
     \<and> (\<forall>x. path_exists (files w') x = (path_exists (files w) x \<or> x \<in> seg_path ` set segs))
     \<and> (\<forall>x. is_file (files w') x = (is_file (files w) x \<or> x \<in> seg_path ` set segs))"

definition talk_txt :: path where "talk_txt = [lit ''dl'', lit ''talk.txt'']"

definition seg_file_1 :: path where "seg_file_1 = [lit ''dl'', lit ''001.mp3'']"

definition env_all_fail :: env where
  "env_all_fail = (env_ok 2700)\<lparr> gemini := (\<lambda>p attempt. Raises) \<rparr>"

definition env_unlink_raises :: env where
  "env_unlink_raises = (env_ok 2700)\<lparr> unlink_raises := (\<lambda>p. True) \<rparr>"

definition env_write_raises :: env where
  "env_write_raises = (env_ok 2700)\<lparr> write_file := (\<lambda>p. WriteRaises) \<rparr>"

definition retained_tree :: filesys where
  "retained_tree = [([lit ''dl''], Dir), (seg_file_1, File), (talk, File)]"

definition seg_txt_1 :: path where "seg_txt_1 = [lit ''dl'', lit ''001.txt'']"

definition transcribed_tree :: filesys where
  "transcribed_tree = (seg_txt_1, File) # retained_tree"

section \<open>Properties of the retry wrapper\<close>

lemma upt_3: "[0 ..< (3::nat)] = [0, 1, 2]"
  by (simp add: upt_rec)

text \<open>
  When every attempt raises, the wrapper makes three attempts, sleeps 2 s before the
  second and 4 s before the third, logs the final failure and returns \<open>None\<close>.
\<close>

lemma retry_all_raise:
  "call_gemini_api_with_retry (default_config d) always_raises =
     (Returned None, [ApiCall 0, LogFailed 1, Sleep 2, ApiCall 1, LogFailed 2, Sleep 4,
             ApiCall 2, LogFailed 3, LogFinalFailure])"
  by (simp add: call_gemini_api_with_retry_def default_config_def upt_3 always_raises_def)

text \<open>
  C3, on the code: when every attempt ends with an empty accumulated response, the
  wrapper makes its three attempts one after the other with no sleep in between, and
  returns \<open>None\<close> without raising. The backoff of 2 s and 4 s is run only after an attempt that raised.
\<close>

theorem retry_all_blank_no_sleep:
  "call_gemini_api_with_retry (default_config []) always_blank =
     (Returned None, [ApiCall 0, LogEmpty 1, ApiCall 1, LogEmpty 2, ApiCall 2, LogEmpty 3])
   \<and> api_calls (snd (call_gemini_api_with_retry (default_config []) always_blank)) = [0, 1, 2]
   \<and> sleeps (snd (call_gemini_api_with_retry (default_config []) always_blank)) = []"
  by (simp add: call_gemini_api_with_retry_def default_config_def upt_3 accumulate_def
      strip_def lstrip_def rstrip_def isspace_def lit_def sleeps_def api_calls_def always_blank_def)

text \<open>
  With a negative \<open>retry_delay\<close> the \<open>time.sleep\<close> in the handler raises: the first
  attempt that raises ends the wrapper with that exception, and the worker returns no
  result.
\<close>

lemma retry_negative_delay:
  assumes "max_retries cfg = 3" and "retry_delay cfg < 0"
  shows "call_gemini_api_with_retry cfg always_raises = (SleepValueError, [ApiCall 0, LogFailed 1])"
  using assms by (simp add: call_gemini_api_with_retry_def upt_3 always_raises_def)

section \<open>Properties of float rounding\<close>

lemma pow2_powr: "pow2 k = 2 powr (of_int k)"
  by (simp add: pow2_def powr_real_of_int inverse_eq_divide)

lemma pow2_pos: "0 < pow2 k"
  by (simp add: pow2_powr)

lemma pow2_add: "pow2 (j + k) = pow2 j * pow2 k"
  by (simp add: pow2_powr powr_add)

lemma pow2_mono: "j \<le> k \<Longrightarrow> pow2 j \<le> pow2 k"
  by (simp add: pow2_powr)

lemma pow2_less_iff: "pow2 j < pow2 k \<longleftrightarrow> j < k"
  by (simp add: pow2_powr)

lemma pow2_nat: "0 \<le> k \<Longrightarrow> pow2 k = of_int (2 ^ nat k)"
  by (simp add: pow2_def)

lemma exponent_bounds:
  assumes "0 < x"
  shows "pow2 (float_exponent x) \<le> x" and "x < pow2 (float_exponent x + 1)"
proof -
  have "pow2 (float_exponent x) \<le> x \<and> x < pow2 (float_exponent x + 1)"
  proof (cases "1 \<le> x")
    case True
    then have p: "0 < \<lfloor>x\<rfloor>" by linarith
    let ?b = "bitlen \<lfloor>x\<rfloor>"
    from bitlen_bounds [OF p] have b: "2 ^ nat (?b - 1) \<le> \<lfloor>x\<rfloor>" "\<lfloor>x\<rfloor> < 2 ^ nat ?b" by simp_all
    have b1: "1 \<le> ?b" using p by (simp add: bitlen_alt_def)
    have "pow2 (?b - 1) = of_int (2 ^ nat (?b - 1))" using b1 by (simp add: pow2_nat)
    also have "\<dots> \<le> of_int \<lfloor>x\<rfloor>" using b(1) by (simp only: of_int_le_iff)
    also have "\<dots> \<le> x" by simp
    finally have lo: "pow2 (?b - 1) \<le> x" .
    have "\<lfloor>x\<rfloor> + 1 \<le> 2 ^ nat ?b" using b(2) by simp
    then have "of_int (\<lfloor>x\<rfloor> + 1) \<le> (of_int (2 ^ nat ?b) :: real)" by (simp only: of_int_le_iff)
    moreover have "x < of_int (\<lfloor>x\<rfloor> + 1)" by linarith
    ultimately have "x < of_int (2 ^ nat ?b)" by linarith
    then have hi: "x < pow2 ?b" using b1 by (simp add: pow2_nat)
    show ?thesis using True lo hi by (simp add: float_exponent_def)
  next
    case False
    then have x1: "x < 1" by simp
    let ?y = "1 / x"
    have y1: "1 < ?y" using assms x1 by simp
    let ?c = "\<lceil>?y\<rceil> - 1"
    have p: "0 < ?c" using y1 by linarith
    let ?b = "bitlen ?c"
    from bitlen_bounds [OF p] have b: "2 ^ nat (?b - 1) \<le> ?c" "?c < 2 ^ nat ?b" by simp_all
    have b1: "1 \<le> ?b" using p by (simp add: bitlen_alt_def)
    have "(of_int (2 ^ nat (?b - 1)) :: real) \<le> of_int ?c" using b(1) by (simp only: of_int_le_iff)
    moreover have "of_int ?c < ?y" by linarith
    ultimately have "of_int (2 ^ nat (?b - 1)) < ?y" by linarith
    then have "pow2 (?b - 1) < ?y" using b1 by (simp add: pow2_nat)
    then have "x * pow2 (?b - 1) < 1" using assms by (simp add: field_simps)
    moreover have "pow2 (- ?b + 1) * pow2 (?b - 1) = 1"
      using pow2_add [of "- ?b + 1" "?b - 1"] by (simp add: pow2_def)
    ultimately have hi: "x < pow2 (- ?b + 1)"
      using pow2_pos [of "?b - 1"] by (metis mult_less_cancel_right_pos)
    have "\<lceil>?y\<rceil> \<le> 2 ^ nat ?b" using b(2) by simp
    then have "(of_int \<lceil>?y\<rceil> :: real) \<le> of_int (2 ^ nat ?b)" by (simp only: of_int_le_iff)
    moreover have "?y \<le> of_int \<lceil>?y\<rceil>" by linarith
    ultimately have "?y \<le> of_int (2 ^ nat ?b)" by linarith
    then have "?y \<le> pow2 ?b" using b1 by (simp add: pow2_nat)
    then have "1 \<le> x * pow2 ?b" using assms by (simp add: field_simps)
    moreover have "pow2 (- ?b) * pow2 ?b = 1"
      using pow2_add [of "- ?b" "?b"] by (simp add: pow2_def)
    ultimately have lo: "pow2 (- ?b) \<le> x"
      using pow2_pos [of "?b"] by (metis mult_le_cancel_right_pos)
    show ?thesis using False lo hi by (simp add: float_exponent_def)
  qed
  then show "pow2 (float_exponent x) \<le> x" and "x < pow2 (float_exponent x + 1)" by simp_all
qed

lemma exponent_unique:
  assumes "pow2 k \<le> x" and "x < pow2 (k + 1)"
  shows "float_exponent x = k"
proof -
  have x: "0 < x" using assms(1) pow2_pos [of k] by linarith
  note b = exponent_bounds [OF x]
  have "pow2 k < pow2 (float_exponent x + 1)" using assms(1) b(2) by linarith
  then have "k < float_exponent x + 1" by (simp only: pow2_less_iff)
  moreover have "pow2 (float_exponent x) < pow2 (k + 1)" using assms(2) b(1) by linarith
  then have "float_exponent x < k + 1" by (simp only: pow2_less_iff)
  ultimately show ?thesis by simp
qed


lemma rhe_int: "round_half_even (of_int n) = n"
  by (simp add: round_half_even_def)

lemma rhe_between: "\<lfloor>x\<rfloor> \<le> round_half_even x \<and> round_half_even x \<le> \<lfloor>x\<rfloor> + 1"
  by (simp add: round_half_even_def Let_def)

lemma rhe_mono:
  assumes "x \<le> y"
  shows "round_half_even x \<le> round_half_even y"
proof (cases "\<lfloor>x\<rfloor> = \<lfloor>y\<rfloor>")
  case True
  then have "x - of_int \<lfloor>x\<rfloor> \<le> y - of_int \<lfloor>y\<rfloor>" using assms by simp
  then show ?thesis using True by (auto simp: round_half_even_def Let_def)
next
  case False
  then have "\<lfloor>x\<rfloor> < \<lfloor>y\<rfloor>" using assms floor_mono [of x y] by linarith
  then show ?thesis using rhe_between [of x] rhe_between [of y] by linarith
qed

lemma rhe_ge: "of_int a \<le> x \<Longrightarrow> a \<le> round_half_even x"
  using rhe_mono [of "of_int a" x] by (simp add: rhe_int)

lemma rhe_le: "x \<le> of_int b \<Longrightarrow> round_half_even x \<le> b"
  using rhe_mono [of x "of_int b"] by (simp add: rhe_int)

lemma pow2_52: "pow2 (k - 52) * 2 ^ 52 = pow2 k" "pow2 (k - 52) * 2 ^ 53 = pow2 (k + 1)"
proof -
  have c: "pow2 52 = 2 ^ 52" "pow2 53 = 2 ^ 53" by (simp_all add: pow2_def)
  have "k - 52 + 52 = k" "k - 52 + 53 = k + 1" by simp_all
  then have "pow2 (k - 52) * pow2 52 = pow2 k" "pow2 (k - 52) * pow2 53 = pow2 (k + 1)"
    using pow2_add [of "k - 52" 52] pow2_add [of "k - 52" 53] by (simp_all only:)
  then show "pow2 (k - 52) * 2 ^ 52 = pow2 k" "pow2 (k - 52) * 2 ^ 53 = pow2 (k + 1)"
    by (simp_all only: c)
qed

lemma grid_le: "0 < q \<Longrightarrow> m \<le> n \<Longrightarrow> of_int m * q \<le> q * (of_int n :: real)"
  by (simp add: mult.commute)

lemma grid_less: "0 < q \<Longrightarrow> m < n \<Longrightarrow> of_int m * q < q * (of_int n :: real)"
  by (simp add: mult.commute)

lemma int_pow_real: "(of_int (2 ^ n) :: real) = 2 ^ n"
  by simp

text \<open>The rounded value of a positive number, on its grid.\<close>

lemma round_double_grid:
  assumes "0 < x"
  defines "k \<equiv> max (float_exponent x) (- 1022)"
  shows "\<exists>m. round_double x = of_int m * pow2 (k - 52) \<and> 0 \<le> m \<and> m \<le> 2 ^ 53
             \<and> (- 1022 \<le> float_exponent x \<longrightarrow> 2 ^ 52 \<le> m)"
proof -
  let ?q = "pow2 (k - 52)"
  have q: "float_quantum x = ?q" using assms by (simp add: float_quantum_def)
  have qp: "0 < ?q" by (rule pow2_pos)
  let ?m = "round_half_even (x / ?q)"
  have r: "round_double x = of_int ?m * ?q" using assms(1) q by (simp add: round_double_def)
  have "of_int 0 \<le> x / ?q" using assms(1) qp by simp
  then have m0: "0 \<le> ?m" by (rule rhe_ge)
  note b = exponent_bounds [OF assms(1)]
  have "x < pow2 (k + 1)" using b(2) pow2_mono [of "float_exponent x + 1" "k + 1"] k_def by simp
  then have "x < ?q * 2 ^ 53" by (simp only: pow2_52)
  then have "x / ?q \<le> of_int (2 ^ 53)" using qp by (simp add: field_simps)
  then have m1: "?m \<le> 2 ^ 53" by (rule rhe_le)
  have m2: "2 ^ 52 \<le> ?m" if "- 1022 \<le> float_exponent x"
  proof -
    have "k = float_exponent x" using that k_def by simp
    then have "?q * 2 ^ 52 \<le> x" using b(1) by (simp only: pow2_52)
    then have "of_int (2 ^ 52) \<le> x / ?q" using qp by (simp add: field_simps)
    then show ?thesis by (rule rhe_ge)
  qed
  show ?thesis using r m0 m1 m2 by blast
qed

text \<open>A point of the grid of binade \<open>k\<close> is rounded to itself.\<close>

lemma round_double_on_grid:
  assumes "- 1022 \<le> k" and "0 < m" and "m \<le> 2 ^ 53" and "2 ^ 52 \<le> m \<or> k = - 1022"
  shows "round_double (of_int m * pow2 (k - 52)) = of_int m * pow2 (k - 52)"
proof -
  let ?q = "pow2 (k - 52)"
  let ?r = "of_int m * ?q"
  have qp: "0 < ?q" by (rule pow2_pos)
  have rp: "0 < ?r" using assms(2) qp by simp
  have r0: "?r \<noteq> 0" using rp by linarith
  consider (top) "m = 2 ^ 53" | (normal) "2 ^ 52 \<le> m" "m < 2 ^ 53" | (sub) "m < 2 ^ 52" "k = - 1022"
    using assms(3,4) by linarith
  then show ?thesis
  proof cases
    case top
    have "?r = ?q * 2 ^ 53" unfolding top by simp
    then have r: "?r = pow2 (k + 1)" by (simp only: pow2_52)
    have "pow2 (k + 1) < pow2 (k + 1 + 1)" by (simp add: pow2_less_iff)
    then have "float_exponent ?r = k + 1" unfolding r by (intro exponent_unique) simp_all
    then have "max (float_exponent \<bar>?r\<bar>) (- 1022) - 52 = k - 52 + 1" using rp assms(1) by simp
    then have "float_quantum ?r = pow2 (k - 52 + 1)" by (simp only: float_quantum_def)
    also have "\<dots> = ?q * 2" using pow2_add [of "k - 52" 1] by (simp add: pow2_def)
    finally have fq: "float_quantum ?r = ?q * 2" .
    have "?r / (?q * 2) = of_int (2 ^ 52)" unfolding top using qp by simp
    then have "round_half_even (?r / (?q * 2)) = 2 ^ 52" by (simp only: rhe_int)
    then have "round_double ?r = of_int (2 ^ 52) * (?q * 2)"
      using r0 by (simp only: round_double_def fq if_False)
    also have "\<dots> = ?r" unfolding top by simp
    finally show ?thesis .
  next
    case normal
    have "?q * of_int (2 ^ 52) \<le> ?r" using grid_le [OF qp normal(1)] by (simp add: mult.commute)
    then have "?q * 2 ^ 52 \<le> ?r" by (simp only: int_pow_real)
    then have lo: "pow2 k \<le> ?r" by (simp only: pow2_52)
    have "?r < ?q * of_int (2 ^ 53)" using grid_less [OF qp normal(2)] .
    then have "?r < ?q * 2 ^ 53" by (simp only: int_pow_real)
    then have "?r < pow2 (k + 1)" by (simp only: pow2_52)
    then have "float_exponent ?r = k" using lo by (intro exponent_unique)
    then have "max (float_exponent \<bar>?r\<bar>) (- 1022) - 52 = k - 52" using rp assms(1) by simp
    then have fq: "float_quantum ?r = ?q" by (simp only: float_quantum_def)
    have "?r / ?q = of_int m" using qp by simp
    then have "round_half_even (?r / ?q) = m" by (simp only: rhe_int)
    then show ?thesis using r0 by (simp only: round_double_def fq if_False)
  next
    case sub
    have "?r < ?q * of_int (2 ^ 52)" using grid_less [OF qp sub(1)] .
    then have "?r < ?q * 2 ^ 52" by (simp only: int_pow_real)
    then have "?r < pow2 k" by (simp only: pow2_52)
    then have "pow2 (float_exponent ?r) < pow2 k" using exponent_bounds(1) [OF rp] by linarith
    then have "float_exponent ?r < k" by (simp only: pow2_less_iff)
    then have "max (float_exponent \<bar>?r\<bar>) (- 1022) - 52 = k - 52" using rp sub(2) by simp
    then have fq: "float_quantum ?r = ?q" by (simp only: float_quantum_def)
    have "?r / ?q = of_int m" using qp by simp
    then have "round_half_even (?r / ?q) = m" by (simp only: rhe_int)
    then show ?thesis using r0 by (simp only: round_double_def fq if_False)
  qed
qed

lemma round_double_idem:
  assumes "0 \<le> x"
  shows "round_double (round_double x) = round_double x"
proof (cases "x = 0")
  case True
  then show ?thesis by (simp add: round_double_def)
next
  case False
  then have x: "0 < x" using assms by simp
  let ?k = "max (float_exponent x) (- 1022)"
  from round_double_grid [OF x]
  obtain m where m: "round_double x = of_int m * pow2 (?k - 52)" "0 \<le> m" "m \<le> 2 ^ 53"
      "- 1022 \<le> float_exponent x \<longrightarrow> 2 ^ 52 \<le> m"
    by blast
  show ?thesis
  proof (cases "m = 0")
    case True
    then show ?thesis using m(1) by (simp add: round_double_def)
  next
    case False
    then have "0 < m" using m(2) by simp
    moreover have "2 ^ 52 \<le> m \<or> ?k = - 1022" using m(4) by linarith
    ultimately show ?thesis using m(1,3) round_double_on_grid [of ?k m] by simp
  qed
qed

lemma round_double_nonneg: "0 \<le> x \<Longrightarrow> 0 \<le> round_double x"
proof (cases "x = 0")
  case True
  then show ?thesis by (simp add: round_double_def)
next
  case False
  assume "0 \<le> x"
  then have "0 < x" using False by simp
  from round_double_grid [OF this] show ?thesis using pow2_pos by (auto simp: zero_le_mult_iff less_imp_le)
qed

lemma round_double_mono:
  assumes "0 \<le> x" and "x \<le> y"
  shows "round_double x \<le> round_double y"
proof (cases "x = 0")
  case True
  then show ?thesis using round_double_nonneg [of y] assms by (simp add: round_double_def)
next
  case False
  then have x: "0 < x" and y: "0 < y" using assms by simp_all
  let ?kx = "max (float_exponent x) (- 1022)"
  let ?ky = "max (float_exponent y) (- 1022)"
  have "pow2 (float_exponent x) < pow2 (float_exponent y + 1)"
    using exponent_bounds(1) [OF x] exponent_bounds(2) [OF y] assms(2) by linarith
  then have e: "float_exponent x \<le> float_exponent y" by (simp add: pow2_less_iff)
  show ?thesis
  proof (cases "?kx = ?ky")
    case True
    then have q: "float_quantum y = float_quantum x" using x y by (simp add: float_quantum_def)
    have qp: "0 < float_quantum x" by (simp add: float_quantum_def pow2_pos)
    then have "x / float_quantum x \<le> y / float_quantum x" using assms(2) by (simp add: divide_right_mono)
    then have "round_half_even (x / float_quantum x) \<le> round_half_even (y / float_quantum x)"
      by (rule rhe_mono)
    then have "(of_int (round_half_even (x / float_quantum x)) :: real)
               \<le> of_int (round_half_even (y / float_quantum x))" by (simp only: of_int_le_iff)
    then show ?thesis using x y q qp by (simp add: round_double_def)
  next
    case False
    have lt: "?kx < ?ky" using e False by (auto simp: max_def split: if_splits)
    have ny: "- 1022 \<le> float_exponent y" using lt by (auto simp: max_def split: if_splits)
    then have ky: "?ky = float_exponent y" by simp
    from round_double_grid [OF x]
    obtain m where m: "round_double x = of_int m * pow2 (?kx - 52)" "m \<le> 2 ^ 53" by blast
    from round_double_grid [OF y] ny
    obtain n where n: "round_double y = of_int n * pow2 (?ky - 52)" "2 ^ 52 \<le> n" by blast
    have "round_double x \<le> pow2 (?kx - 52) * of_int (2 ^ 53)"
      unfolding m(1) using pow2_pos m(2) by (rule grid_le)
    then have "round_double x \<le> pow2 (?kx - 52) * 2 ^ 53" by (simp only: int_pow_real)
    then have "round_double x \<le> pow2 (?kx + 1)" by (simp only: pow2_52)
    also have "\<dots> \<le> pow2 ?ky" using lt by (intro pow2_mono) linarith
    also have "\<dots> = pow2 (?ky - 52) * 2 ^ 52" by (simp only: pow2_52)
    also have "\<dots> = pow2 (?ky - 52) * of_int (2 ^ 52)" by (simp only: int_pow_real)
    also have "\<dots> = of_int (2 ^ 52) * pow2 (?ky - 52)" by (simp only: mult.commute)
    also have "\<dots> \<le> pow2 (?ky - 52) * of_int n" using pow2_pos n(2) by (rule grid_le)
    also have "\<dots> = round_double y" unfolding n(1) by (simp only: mult.commute)
    finally show ?thesis .
  qed
qed

text \<open>Whole numbers up to \<open>2^53\<close> are floats.\<close>

lemma round_double_int:
  assumes "0 \<le> n" and "n \<le> 2 ^ 53"
  shows "round_double (of_int n) = of_int n"
proof (cases "n = 0")
  case True
  then show ?thesis by (simp add: round_double_def)
next
  case False
  then have n: "0 < n" using assms(1) by simp
  show ?thesis
  proof (cases "n = 2 ^ 53")
    case True
    have "round_double (of_int (2 ^ 53) * pow2 (52 - 52)) = of_int (2 ^ 53) * pow2 (52 - 52)"
      by (rule round_double_on_grid) simp_all
    then show ?thesis unfolding True by (simp add: pow2_def)
  next
    case False
    then have lt: "n < 2 ^ 53" using assms(2) by simp
    let ?x = "of_int n :: real"
    let ?k = "float_exponent ?x"
    have x: "0 < ?x" using n by simp
    note b = exponent_bounds [OF x]
    have "pow2 0 \<le> ?x" using n by (simp add: pow2_def)
    then have "pow2 0 < pow2 (?k + 1)" using b(2) by linarith
    then have k0: "0 \<le> ?k" by (simp add: pow2_less_iff)
    have "?x < pow2 53" using lt by (simp add: pow2_def)
    then have "pow2 ?k < pow2 53" using b(1) by linarith
    then have k52: "?k \<le> 52" by (simp add: pow2_less_iff)
    define j where "j = nat (52 - ?k)"
    define m where "m = n * 2 ^ j"
    have q: "pow2 (?k - 52) = 1 / 2 ^ j"
      using k52 by (cases "?k = 52") (simp_all add: pow2_def j_def)
    have mq: "of_int m * pow2 (?k - 52) = ?x" by (simp add: m_def q)
    have jk: "pow2 (?k - 52) * 2 ^ j = 1" by (simp add: q)
    have "pow2 (?k - 52) * 2 ^ 52 \<le> of_int m * pow2 (?k - 52)"
      using b(1) by (simp only: pow2_52 mq)
    then have "(2 ^ 52 :: real) \<le> of_int m" using pow2_pos [of "?k - 52"] by (simp add: mult.commute)
    then have m1: "2 ^ 52 \<le> m" by (metis of_int_le_iff of_int_numeral of_int_power)
    have "of_int m * pow2 (?k - 52) < pow2 (?k - 52) * 2 ^ 53"
      using b(2) by (simp only: pow2_52 mq)
    then have "(of_int m :: real) < 2 ^ 53" using pow2_pos [of "?k - 52"] by (simp add: mult.commute)
    then have m2: "m \<le> 2 ^ 53" by (metis less_imp_le of_int_le_iff of_int_numeral of_int_power)
    have "0 < m" using m1 by simp
    moreover have "- 1022 \<le> ?k" using k0 by simp
    ultimately have "round_double (of_int m * pow2 (?k - 52)) = of_int m * pow2 (?k - 52)"
      using m1 m2 by (intro round_double_on_grid) simp_all
    then show ?thesis by (simp only: mq)
  qed
qed

section \<open>Properties of the segment planner\<close>

lemma stride_lt_iff:
  fixes t d :: real
  assumes "0 < t"
  shows "real k * t < d \<longleftrightarrow> k < nat \<lceil>d / t\<rceil>"
proof -
  have "real k * t < d \<longleftrightarrow> real k < d / t"
    using assms by (simp add: pos_less_divide_eq)
  also have "\<dots> \<longleftrightarrow> int k < \<lceil>d / t\<rceil>"
    by (simp add: less_ceiling_iff)
  also have "\<dots> \<longleftrightarrow> k < nat \<lceil>d / t\<rceil>"
    by linarith
  finally show ?thesis .
qed

text \<open>
  With a whole-number threshold the float addition of the loop is exact as long as the
  sums stay below \<open>2^53\<close>.
\<close>

lemma fadd_stride:
  fixes t d :: real
  assumes "t = of_int T" and "0 < t" and "real k * t < d" and "d + t \<le> 2 ^ 53"
  shows "fadd (real k * t) t = real (Suc k) * t"
proof -
  let ?n = "(int k + 1) * T"
  have e: "real k * t + t = of_int ?n" using assms(1) by (simp add: algebra_simps)
  have "0 < T" using assms(1,2) by simp
  then have n0: "0 \<le> ?n" by simp
  have "of_int ?n \<le> (2 ^ 53 :: real)" using e assms(3,4) by linarith
  then have "?n \<le> 2 ^ 53" by (metis of_int_le_iff of_int_numeral of_int_power)
  then have "round_double (of_int ?n) = of_int ?n" using n0 by (intro round_double_int)
  then have "fadd (real k * t) t = of_int ?n" by (simp only: fadd_def e)
  also have "\<dots> = real (Suc k) * t" using assms(1) by (simp add: algebra_simps)
  finally show ?thesis .
qed

lemma split_loop_step:
  assumes "cur < d"
  shows "split_loop e cfg p d cur segs w
         = split_loop e cfg p d (min (fadd cur (max_segment_duration cfg)) d)
             (add_segment segs
                (fst (create_segment_file e cfg w p cur (min (fadd cur (max_segment_duration cfg)) d)))
                cur (min (fadd cur (max_segment_duration cfg)) d))
             (snd (create_segment_file e cfg w p cur (min (fadd cur (max_segment_duration cfg)) d)))"
  using assms by (subst split_loop.simps) (simp add: Let_def)

lemma split_loop_stop:
  assumes "\<not> cur < d"
  shows "split_loop e cfg p d cur segs w = Some (segs, w)"
  using assms by (subst split_loop.simps) simp

lemma split_loop_strides:
  assumes t: "0 < max_segment_duration cfg"
      and T: "max_segment_duration cfg = of_int T"
      and big: "d + max_segment_duration cfg \<le> 2 ^ 53"
      and ok: "\<forall>s l q. ffmpeg e p s l q = ExitZero"
      and n: "n = nat \<lceil>d / max_segment_duration cfg\<rceil>"
  shows "k \<le> n \<Longrightarrow>
         \<exists>w'. split_loop e cfg p d (min (real k * max_segment_duration cfg) d) segs w
               = Some (segs @ map (planned_segment cfg p d) [k ..< n], w')"
proof (induction "n - k" arbitrary: k segs w)
  case 0
  then have "k = n" by simp
  then have "\<not> real k * max_segment_duration cfg < d"
    using stride_lt_iff [OF t, of k d] n by simp
  then have "\<not> min (real k * max_segment_duration cfg) d < d" by simp
  then show ?case using \<open>k = n\<close> by (simp add: split_loop_stop)
next
  case (Suc m)
  let ?t = "max_segment_duration cfg"
  from Suc have kn: "k < n" by simp
  then have lt: "real k * ?t < d"
    using stride_lt_iff [OF t, of k d] n by simp
  then have cur: "min (real k * ?t) d = real k * ?t" by simp
  have nxt: "fadd (real k * ?t) ?t = real (Suc k) * ?t"
    using T t lt big by (rule fadd_stride)
  obtain w1 where cs: "create_segment_file e cfg w p (real k * ?t) (min (real (Suc k) * ?t) d)
                       = (Some (segment_path_of cfg p (real k * ?t)), w1)"
    using t ok by (simp add: create_segment_file_def Let_def)
  have "m = n - Suc k" "Suc k \<le> n" using Suc.hyps kn by simp_all
  from Suc.hyps(1) [OF this, of "segs @ [planned_segment cfg p d k]" w1]
  obtain w' where "split_loop e cfg p d (min (real (Suc k) * ?t) d)
                     (segs @ [planned_segment cfg p d k]) w1
                   = Some ((segs @ [planned_segment cfg p d k]) @ map (planned_segment cfg p d) [Suc k ..< n], w')"
    by blast
  moreover have "[k ..< n] = k # [Suc k ..< n]" using kn by (simp add: upt_conv_Cons)
  moreover have "split_loop e cfg p d (min (real k * ?t) d) segs w
                 = split_loop e cfg p d (min (real (Suc k) * ?t) d)
                     (segs @ [planned_segment cfg p d k]) w1"
    unfolding cur using lt
    by (subst split_loop_step)
       (simp_all only: nxt cs add_segment_def planned_segment_def fst_conv snd_conv option.case)
  ultimately show ?case by auto
qed

text \<open>
  What holds of every run of the loop that returns. A step whose sum is rounded back to
  \<open>current_time\<close> does not occur in such a run, so the invariant need only be kept by
  steps that move on.
\<close>

lemma split_loop_partial:
  assumes step: "\<And>cur segs w. J cur segs w \<Longrightarrow> cur < d \<Longrightarrow>
                   min (fadd cur (max_segment_duration cfg)) d \<noteq> cur \<Longrightarrow>
                   J (min (fadd cur (max_segment_duration cfg)) d)
                     (add_segment segs
                        (fst (create_segment_file e cfg w p cur (min (fadd cur (max_segment_duration cfg)) d)))
                        cur (min (fadd cur (max_segment_duration cfg)) d))
                     (snd (create_segment_file e cfg w p cur (min (fadd cur (max_segment_duration cfg)) d)))"
      and run: "split_loop e cfg p d cur segs w = Some y"
      and init: "J cur segs w"
  shows "\<exists>cur'. J cur' (fst y) (snd y)"
    and "cur < d \<Longrightarrow> min (fadd cur (max_segment_duration cfg)) d \<noteq> cur"
proof -
  define P where "P = (\<lambda>e' cfg' p' d' cur segs w y.
     e' = e \<and> cfg' = cfg \<and> p' = p \<and> d' = d \<longrightarrow>
       (cur < d \<longrightarrow> min (fadd cur (max_segment_duration cfg)) d \<noteq> cur)
       \<and> (J cur segs w \<longrightarrow> (\<exists>cur'. J cur' (fst y) (snd y))))"
  have "P e cfg p d cur segs w y"
  proof (rule split_loop.raw_induct [where P = P, OF _ run])
    fix f e' cfg' p' d' cur segs w y
    assume ih: "\<And>e'' cfg'' p'' d'' cur'' segs'' w'' y''.
                  f e'' cfg'' p'' d'' cur'' segs'' w'' = Some y'' \<Longrightarrow>
                  P e'' cfg'' p'' d'' cur'' segs'' w'' y''"
       and fx: "(if cur < d'
                 then let end_time = min (fadd cur (max_segment_duration cfg')) d';
                          r = create_segment_file e' cfg' w p' cur end_time
                      in f e' cfg' p' d' end_time (add_segment segs (fst r) cur end_time) (snd r)
                 else Some (segs, w)) = Some y"
    show "P e' cfg' p' d' cur segs w y"
      unfolding P_def
    proof (intro impI)
      assume eq: "e' = e \<and> cfg' = cfg \<and> p' = p \<and> d' = d"
      let ?end = "min (fadd cur (max_segment_duration cfg)) d"
      let ?r = "create_segment_file e cfg w p cur ?end"
      show "(cur < d \<longrightarrow> ?end \<noteq> cur) \<and> (J cur segs w \<longrightarrow> (\<exists>cur'. J cur' (fst y) (snd y)))"
      proof (cases "cur < d")
        case False
        then have "y = (segs, w)" using fx eq by simp
        then show ?thesis using False by auto
      next
        case True
        then have call: "f e cfg p d ?end (add_segment segs (fst ?r) cur ?end) (snd ?r) = Some y"
          using fx eq by (simp add: Let_def)
        from ih [OF call]
        have p: "(?end < d \<longrightarrow> min (fadd ?end (max_segment_duration cfg)) d \<noteq> ?end)
                 \<and> (J ?end (add_segment segs (fst ?r) cur ?end) (snd ?r)
                      \<longrightarrow> (\<exists>cur'. J cur' (fst y) (snd y)))"
          by (simp add: P_def)
        have moved: "?end \<noteq> cur"
        proof
          assume same: "?end = cur"
          then have "?end < d" using True by simp
          then have "min (fadd ?end (max_segment_duration cfg)) d \<noteq> ?end" using p by simp
          then show False using same by simp
        qed
        then show ?thesis using p step [OF _ True moved] by blast
      qed
    qed
  qed
  then show "\<exists>cur'. J cur' (fst y) (snd y)"
    and "cur < d \<Longrightarrow> min (fadd cur (max_segment_duration cfg)) d \<noteq> cur"
    using init by (simp_all add: P_def)
qed

text \<open>A state whose sum is rounded back to \<open>current_time\<close>: the loop does not return.\<close>

lemma split_loop_stuck:
  assumes "cur < d" and "min (fadd cur (max_segment_duration cfg)) d = cur"
  shows "split_loop e cfg p d cur segs w = None"
proof (cases "split_loop e cfg p d cur segs w")
  case None
  then show ?thesis .
next
  case (Some y)
  from split_loop_partial(2) [where J = "\<lambda>cur segs w. True", OF _ Some _ assms(1)] assms(2)
  show ?thesis by simp
qed

text \<open>
  So it is with a threshold of one second at the offset \<open>2^53\<close>: \<open>2^53 + 1\<close> lies
  half-way between two floats and is rounded to \<open>2^53\<close>.
\<close>

lemma split_loop_stuck_example:
  assumes "max_segment_duration cfg = 1"
  shows "split_loop e cfg p (2 ^ 53 + 2) (2 ^ 53) segs w = None"
proof -
  let ?x = "2 ^ 53 + 1 :: real"
  have "pow2 53 \<le> ?x" "?x < pow2 (53 + 1)" by (simp_all add: pow2_def)
  then have "float_exponent ?x = 53" by (rule exponent_unique)
  then have q: "float_quantum ?x = 2" by (simp add: float_quantum_def pow2_def)
  have "?x / 2 = 2 ^ 52 + 1 / 2" by simp
  moreover have "\<lfloor>2 ^ 52 + 1 / 2 :: real\<rfloor> = 2 ^ 52" by (simp add: floor_eq_iff)
  ultimately have "round_half_even (?x / 2) = 2 ^ 52"
    by (simp add: round_half_even_def Let_def)
  then have "round_double ?x = 2 ^ 53" unfolding round_double_def q by simp
  then have "fadd (2 ^ 53) (max_segment_duration cfg) = 2 ^ 53" by (simp add: fadd_def assms)
  then have "min (fadd (2 ^ 53) (max_segment_duration cfg)) (2 ^ 53 + 2) = 2 ^ 53" by simp
  moreover have "(2 ^ 53 :: real) < 2 ^ 53 + 2" by simp
  ultimately show ?thesis by (intro split_loop_stuck)
qed

lemma planned_segment_props:
  assumes t: "0 < max_segment_duration cfg" and i: "i < nat \<lceil>d / max_segment_duration cfg\<rceil>"
  shows "seg_start (planned_segment cfg p d i) = real i * max_segment_duration cfg"
    and "seg_end (planned_segment cfg p d i) = min (real (Suc i) * max_segment_duration cfg) d"
    and "seg_start (planned_segment cfg p d i) < seg_end (planned_segment cfg p d i)"
    and "seg_end (planned_segment cfg p d i) - seg_start (planned_segment cfg p d i) \<le> max_segment_duration cfg"
    and "seg_path (planned_segment cfg p d i)
         = joinpath (parent p) (fmt_0d 3 (1 + \<lfloor>seg_start (planned_segment cfg p d i) / max_segment_duration cfg\<rfloor>) @ path_suffix p)"
proof -
  let ?t = "max_segment_duration cfg"
  have lt: "real i * ?t < d" using stride_lt_iff [OF t, of i d] i by simp
  show "seg_start (planned_segment cfg p d i) = real i * ?t"
    by (simp add: planned_segment_def seg_start_def)
  show "seg_end (planned_segment cfg p d i) = min (real (Suc i) * ?t) d"
    by (simp add: planned_segment_def seg_end_def)
  show "seg_start (planned_segment cfg p d i) < seg_end (planned_segment cfg p d i)"
    using lt t by (simp add: planned_segment_def seg_start_def seg_end_def algebra_simps)
  show "seg_end (planned_segment cfg p d i) - seg_start (planned_segment cfg p d i) \<le> ?t"
    using lt t by (simp add: planned_segment_def seg_start_def seg_end_def algebra_simps min_def)
  have "real i * ?t / ?t = real i" using t by simp
  then have "\<lfloor>real i * ?t / ?t\<rfloor> = int i" by (simp only: floor_of_nat)
  then show "seg_path (planned_segment cfg p d i)
         = joinpath (parent p) (fmt_0d 3 (1 + \<lfloor>seg_start (planned_segment cfg p d i) / ?t\<rfloor>) @ path_suffix p)"
    by (simp only: planned_segment_def seg_path_def seg_start_def segment_path_of_def
        segment_index_def py_int_def fst_conv snd_conv)
       (simp add: add.commute)
qed

text \<open>One step of the loop when \<open>ffmpeg\<close> succeeds.\<close>

lemma split_loop_ok_step:
  assumes "cur < d" and "max_segment_duration cfg \<noteq> 0"
      and "\<forall>s l q. ffmpeg e p s l q = ExitZero"
      and "min (fadd cur (max_segment_duration cfg)) d = nxt"
  shows "\<exists>w1. split_loop e cfg p d cur segs w
              = split_loop e cfg p d nxt (segs @ [(segment_path_of cfg p cur, cur, nxt)]) w1"
proof -
  obtain w1 where cs: "create_segment_file e cfg w p cur nxt = (Some (segment_path_of cfg p cur), w1)"
    using assms(2,3) by (simp add: create_segment_file_def Let_def)
  have "split_loop e cfg p d cur segs w
        = split_loop e cfg p d nxt (segs @ [(segment_path_of cfg p cur, cur, nxt)]) w1"
    using assms(1)
    by (subst split_loop_step) (simp_all only: assms(4) cs add_segment_def fst_conv snd_conv option.case)
  then show ?thesis by blast
qed

text \<open>The three float sums of the threshold \<open>0.1\<close>: the third is rounded up to \<open>0.1 + 0.2\<close>.\<close>

lemma tenth_sums:
  "fadd 0 tenth = tenth"
  "fadd tenth tenth = 3602879701896397 / 2 ^ 54"
  "fadd (3602879701896397 / 2 ^ 54) tenth = three_tenths"
proof -
  have "round_double (of_int 7205759403792794 * pow2 (- 4 - 52)) = of_int 7205759403792794 * pow2 (- 4 - 52)"
    by (rule round_double_on_grid) simp_all
  then show "fadd 0 tenth = tenth" by (simp add: fadd_def tenth_def pow2_def)
  have "round_double (of_int 7205759403792794 * pow2 (- 3 - 52)) = of_int 7205759403792794 * pow2 (- 3 - 52)"
    by (rule round_double_on_grid) simp_all
  then show "fadd tenth tenth = 3602879701896397 / 2 ^ 54" by (simp add: fadd_def tenth_def pow2_def)
  let ?x = "10808639105689191 / 2 ^ 55 :: real"
  have "float_exponent ?x = - 2" by (rule exponent_unique) (simp_all add: pow2_def)
  then have q: "float_quantum ?x = 1 / 2 ^ 54" by (simp add: float_quantum_def pow2_def)
  have "?x / (1 / 2 ^ 54) = 10808639105689191 / 2" by simp
  moreover have "\<lfloor>10808639105689191 / 2 :: real\<rfloor> = 5404319552844595" by simp
  ultimately have "round_half_even (?x / (1 / 2 ^ 54)) = 5404319552844596"
    by (simp add: round_half_even_def Let_def)
  then have "round_double ?x = three_tenths"
    unfolding round_double_def q by (simp add: three_tenths_def)
  moreover have "3602879701896397 / 2 ^ 54 + tenth = ?x" by (simp add: tenth_def)
  ultimately show "fadd (3602879701896397 / 2 ^ 54) tenth = three_tenths" by (simp only: fadd_def)
qed

text \<open>
  With a threshold of at least one second the loop moves on by a whole second or more at
  each step as long as the offsets stay below \<open>2^53\<close>, so it returns.
\<close>

lemma fadd_floor:
  assumes "0 \<le> cur" and "cur + 1 \<le> 2 ^ 53" and "1 \<le> t"
  shows "of_int (\<lfloor>cur\<rfloor> + 1) \<le> fadd cur t"
proof -
  let ?n = "\<lfloor>cur\<rfloor> + 1"
  have n0: "0 \<le> ?n" using assms(1) by simp
  have "of_int ?n \<le> cur + 1" by simp
  then have le: "of_int ?n \<le> cur + t" using assms(3) by linarith
  have "of_int ?n \<le> (2 ^ 53 :: real)" using \<open>of_int ?n \<le> cur + 1\<close> assms(2) by linarith
  then have "?n \<le> 2 ^ 53" by (metis of_int_le_iff of_int_numeral of_int_power)
  then have "round_double (of_int ?n) = of_int ?n" using n0 by (intro round_double_int)
  moreover have "round_double (of_int ?n) \<le> round_double (cur + t)"
    using n0 le by (intro round_double_mono) simp_all
  ultimately show ?thesis by (simp only: fadd_def)
qed

lemma split_loop_total:
  assumes t: "1 \<le> max_segment_duration cfg" and big: "d + 1 \<le> 2 ^ 53"
  shows "0 \<le> cur \<Longrightarrow> \<exists>y. split_loop e cfg p d cur segs w = Some y"
proof (induction "nat (\<lceil>d\<rceil> - \<lfloor>cur\<rfloor>)" arbitrary: cur segs w rule: less_induct)
  case less
  show ?case
  proof (cases "cur < d")
    case False
    then show ?thesis by (simp add: split_loop_stop)
  next
    case True
    let ?t = "max_segment_duration cfg"
    let ?end = "min (fadd cur ?t) d"
    let ?r = "create_segment_file e cfg w p cur ?end"
    have st: "split_loop e cfg p d cur segs w
              = split_loop e cfg p d ?end (add_segment segs (fst ?r) cur ?end) (snd ?r)"
      using True by (rule split_loop_step)
    have fl: "of_int (\<lfloor>cur\<rfloor> + 1) \<le> fadd cur ?t"
      using less.prems True big t by (intro fadd_floor) simp_all
    show ?thesis
    proof (cases "?end < d")
      case False
      from split_loop_stop [OF this] show ?thesis unfolding st by blast
    next
      case e: True
      then have "?end = fadd cur ?t" by (simp add: min_def split: if_splits)
      then have "of_int (\<lfloor>cur\<rfloor> + 1) \<le> ?end" using fl by simp
      then have f: "\<lfloor>cur\<rfloor> + 1 \<le> \<lfloor>?end\<rfloor>" by (simp only: le_floor_iff)
      have "\<lfloor>?end\<rfloor> < \<lceil>d\<rceil>" using e by (meson floor_less_iff le_of_int_ceiling less_le_trans)
      then have m: "nat (\<lceil>d\<rceil> - \<lfloor>?end\<rfloor>) < nat (\<lceil>d\<rceil> - \<lfloor>cur\<rfloor>)" using f by linarith
      have "0 \<le> \<lfloor>cur\<rfloor>" using less.prems by simp
      then have "0 \<le> \<lfloor>?end\<rfloor>" using f by linarith
      then have "0 \<le> ?end" by (simp only: zero_le_floor)
      from less.hyps [OF m this] show ?thesis unfolding st .
    qed
  qed
qed

text \<open>
  C1, for a threshold that is a whole number of seconds. With such a threshold \<open>t\<close> and
  probed duration \<open>d\<close>: if \<open>d \<le> t\<close> the planner returns the one segment
  \<open>(audio_path, 0, d)\<close> and leaves the world as it was (no \<open>ffmpeg\<close> run, no file made).
  If \<open>d > t\<close> (\<open>t\<close> positive, \<open>d + t\<close> at most \<open>2^53\<close>) and every extraction from the
  file succeeds, it returns \<open>\<lceil>d / t\<rceil>\<close> segments; the first starts at 0, the last ends at
  \<open>d\<close>, each ends where the next starts, each is non-empty and at most \<open>t\<close> long, and the
  sub-file of the stride starting at \<open>s\<close> lies beside the source under the three-digit
  index \<open>1 + \<lfloor>s / t\<rfloor>\<close> followed by the source's suffix.
\<close>

theorem split_audio_file_plan:
  assumes "t = max_segment_duration cfg" and "d = get_audio_duration e p"
  shows "(d \<le> t \<longrightarrow> split_audio_file e cfg w p = Some ([(p, 0, d)], w)) \<and>
         (0 < t \<and> t < d \<and> t = of_int T \<and> d + t \<le> 2 ^ 53 \<and> (\<forall>s l q. ffmpeg e p s l q = ExitZero) \<longrightarrow>
            (\<exists>segs w'. split_audio_file e cfg w p = Some (segs, w') \<and>
               length segs = nat \<lceil>d / t\<rceil> \<and>
               seg_start (hd segs) = 0 \<and> seg_end (last segs) = d \<and>
               (\<forall>i. Suc i < length segs \<longrightarrow> seg_end (segs ! i) = seg_start (segs ! Suc i)) \<and>
               (\<forall>i < length segs.
                   seg_start (segs ! i) < seg_end (segs ! i) \<and>
                   seg_end (segs ! i) - seg_start (segs ! i) \<le> t \<and>
                   seg_path (segs ! i)
                     = joinpath (parent p) (fmt_0d 3 (1 + \<lfloor>seg_start (segs ! i) / t\<rfloor>) @ path_suffix p))))"
proof (intro conjI impI)
  assume "d \<le> t"
  then show "split_audio_file e cfg w p = Some ([(p, 0, d)], w)"
    using assms by (simp add: split_audio_file_def)
next
  assume h: "0 < t \<and> t < d \<and> t = of_int T \<and> d + t \<le> 2 ^ 53 \<and> (\<forall>s l q. ffmpeg e p s l q = ExitZero)"
  define n where "n = nat \<lceil>d / t\<rceil>"
  define segs where "segs = map (planned_segment cfg p d) [0 ..< n]"
  have t: "0 < max_segment_duration cfg" using h assms by simp
  have T: "max_segment_duration cfg = of_int T" using h assms by simp
  have big: "d + max_segment_duration cfg \<le> 2 ^ 53" using h assms by simp
  have ok: "\<forall>s l q. ffmpeg e p s l q = ExitZero" using h by simp
  have n': "n = nat \<lceil>d / max_segment_duration cfg\<rceil>" using n_def assms by simp
  have "0 < d / t" using h by simp
  then have "0 < \<lceil>d / t\<rceil>" by (simp add: less_ceiling_iff)
  then have n0: "0 < n" using n_def by simp
  from split_loop_strides [OF t T big ok n', of 0 "[]" w]
  obtain w' where "split_loop e cfg p d (min 0 d) [] w = Some (segs, w')"
    using segs_def by auto
  moreover have "min 0 d = 0" using h by simp
  ultimately have run: "split_audio_file e cfg w p = Some (segs, w')"
    using h assms by (simp add: split_audio_file_def)
  have len: "length segs = n" by (simp add: segs_def)
  have nth: "segs ! i = planned_segment cfg p d i" if "i < n" for i
    using that by (simp add: segs_def)
  have "segs \<noteq> []" using len n0 by auto
  then have "hd segs = planned_segment cfg p d 0" "last segs = planned_segment cfg p d (n - 1)"
    using nth [of 0] nth [of "n - 1"] n0 len by (simp_all add: hd_conv_nth last_conv_nth)
  note ends = this
  have hd0: "seg_start (hd segs) = 0"
    by (simp add: ends planned_segment_def seg_start_def)
  have t': "0 < t" using h by simp
  have "n - 1 < nat \<lceil>d / t\<rceil>" using n0 n_def by simp
  then have "real (n - 1) * t < d"
    by (simp only: stride_lt_iff [OF t'])
  moreover have "\<not> n < nat \<lceil>d / t\<rceil>" using n_def by simp
  then have "\<not> real n * t < d"
    by (simp only: stride_lt_iff [OF t'] not_False_eq_True)
  moreover have "real (Suc (n - 1)) = real n" using n0 by simp
  ultimately have "min (real (Suc (n - 1)) * t) d = d" by simp
  then have lastd: "seg_end (last segs) = d"
    using assms(1) by (simp only: ends planned_segment_def seg_end_def snd_conv)
  have contig: "seg_end (segs ! i) = seg_start (segs ! Suc i)" if "Suc i < length segs" for i
  proof -
    have i: "Suc i < n" "i < n" using that len by simp_all
    then have "Suc i < nat \<lceil>d / t\<rceil>" using n_def by simp
    then have "real (Suc i) * t < d" by (simp only: stride_lt_iff [OF t'])
    then have "min (real (Suc i) * t) d = real (Suc i) * t" by simp
    then show ?thesis
      using nth [OF i(1)] nth [OF i(2)] planned_segment_props(1) [OF t, of "Suc i" d p]
        planned_segment_props(2) [OF t, of i d p] i n' assms
      by simp
  qed
  have each: "seg_start (segs ! i) < seg_end (segs ! i) \<and>
              seg_end (segs ! i) - seg_start (segs ! i) \<le> t \<and>
              seg_path (segs ! i)
                = joinpath (parent p) (fmt_0d 3 (1 + \<lfloor>seg_start (segs ! i) / t\<rfloor>) @ path_suffix p)"
    if "i < length segs" for i
  proof -
    have i: "i < nat \<lceil>d / max_segment_duration cfg\<rceil>" using that len n' by simp
    show ?thesis
      using planned_segment_props(3,4,5) [OF t i, of p] nth [of i] that len assms(1)
      by simp
  qed
  show "\<exists>segs w'. split_audio_file e cfg w p = Some (segs, w') \<and>
               length segs = nat \<lceil>d / t\<rceil> \<and>
               seg_start (hd segs) = 0 \<and> seg_end (last segs) = d \<and>
               (\<forall>i. Suc i < length segs \<longrightarrow> seg_end (segs ! i) = seg_start (segs ! Suc i)) \<and>
               (\<forall>i < length segs.
                   seg_start (segs ! i) < seg_end (segs ! i) \<and>
                   seg_end (segs ! i) - seg_start (segs ! i) \<le> t \<and>
                   seg_path (segs ! i)
                     = joinpath (parent p) (fmt_0d 3 (1 + \<lfloor>seg_start (segs ! i) / t\<rfloor>) @ path_suffix p))"
    using run len n_def hd0 lastd contig each by blast
qed

text \<open>A ten-minute and a forty-five-minute file under the default threshold.\<close>

theorem split_audio_file_plan_witness:
  "split_audio_file (env_ok 600) (default_config [lit ''dl'']) world0 talk
     = Some ([(talk, 0, 600)], world0) \<and>
   (\<exists>segs w'. split_audio_file (env_ok 2700) (default_config [lit ''dl'']) world0 talk = Some (segs, w')
        \<and> length segs = 2 \<and> seg_start (hd segs) = 0 \<and> seg_end (last segs) = 2700)"
proof -
  have a: "max_segment_duration (default_config [lit ''dl'']) = 1800"
    by (simp add: default_config_def)
  have b: "get_audio_duration (env_ok x) talk = x" for x
    by (simp add: get_audio_duration_def env_ok_def)
  have c: "\<forall>s l q. ffmpeg (env_ok 2700) talk s l q = ExitZero"
    by (simp add: env_ok_def)
  have n: "nat \<lceil>(2700::real) / 1800\<rceil> = 2" by simp
  have i: "(1800::real) = of_int 1800" by simp
  show ?thesis
    using split_audio_file_plan [where t = 1800 and cfg = "default_config [lit ''dl'']" and d = 600
        and e = "env_ok 600" and p = talk and w = world0 and T = 1800]
      split_audio_file_plan [where t = 1800 and cfg = "default_config [lit ''dl'']" and d = 2700
        and e = "env_ok 2700" and p = talk and w = world0 and T = 1800]
    apply (simp only: a b c n)
    apply simp
    apply blast
    done
qed

text \<open>
  C1 as stated fails for a threshold that is not a whole number. With the threshold
  \<open>0.1\<close> and the duration \<open>0.30000000000000004\<close> every extraction succeeds and the
  planner returns three segments, the third sum being rounded up to the duration, where
  \<open>\<lceil>d / t\<rceil>\<close> is four.
\<close>

theorem split_audio_file_float_strides:
  "\<exists>segs w'. split_audio_file (env_ok three_tenths) cfg_tenth world0 talk = Some (segs, w') \<and>
      length segs = 3 \<and>
      map snd segs = [(0, tenth), (tenth, 3602879701896397 / 2 ^ 54),
                      (3602879701896397 / 2 ^ 54, three_tenths)] \<and>
      nat \<lceil>get_audio_duration (env_ok three_tenths) talk / max_segment_duration cfg_tenth\<rceil> = 4"
proof -
  let ?e = "env_ok three_tenths"
  let ?a = "3602879701896397 / 2 ^ 54 :: real"
  have t: "max_segment_duration cfg_tenth = tenth" by (simp add: cfg_tenth_def)
  have t0: "max_segment_duration cfg_tenth \<noteq> 0" by (simp add: t tenth_def)
  have d: "get_audio_duration ?e talk = three_tenths"
    by (simp add: get_audio_duration_def env_ok_def)
  have ok: "\<forall>s l q. ffmpeg ?e talk s l q = ExitZero" by (simp add: env_ok_def)
  have lt: "0 < three_tenths" "tenth < three_tenths" "?a < three_tenths" "\<not> three_tenths < three_tenths"
    by (simp_all add: tenth_def three_tenths_def)
  have m: "min (fadd 0 (max_segment_duration cfg_tenth)) three_tenths = tenth"
          "min (fadd tenth (max_segment_duration cfg_tenth)) three_tenths = ?a"
          "min (fadd ?a (max_segment_duration cfg_tenth)) three_tenths = three_tenths"
    unfolding t tenth_sums by (simp_all add: tenth_def three_tenths_def)
  obtain w1 where s1: "split_loop ?e cfg_tenth talk three_tenths 0 [] world0
      = split_loop ?e cfg_tenth talk three_tenths tenth ([] @ [(segment_path_of cfg_tenth talk 0, 0, tenth)]) w1"
    using split_loop_ok_step [OF lt(1) t0 ok m(1)] by blast
  obtain w2 where s2: "split_loop ?e cfg_tenth talk three_tenths tenth
        ([] @ [(segment_path_of cfg_tenth talk 0, 0, tenth)]) w1
      = split_loop ?e cfg_tenth talk three_tenths ?a
          (([] @ [(segment_path_of cfg_tenth talk 0, 0, tenth)])
             @ [(segment_path_of cfg_tenth talk tenth, tenth, ?a)]) w2"
    using split_loop_ok_step [OF lt(2) t0 ok m(2)] by blast
  obtain w3 where s3: "split_loop ?e cfg_tenth talk three_tenths ?a
        (([] @ [(segment_path_of cfg_tenth talk 0, 0, tenth)])
             @ [(segment_path_of cfg_tenth talk tenth, tenth, ?a)]) w2
      = split_loop ?e cfg_tenth talk three_tenths three_tenths
          ((([] @ [(segment_path_of cfg_tenth talk 0, 0, tenth)])
             @ [(segment_path_of cfg_tenth talk tenth, tenth, ?a)])
             @ [(segment_path_of cfg_tenth talk ?a, ?a, three_tenths)]) w3"
    using split_loop_ok_step [OF lt(3) t0 ok m(3)] by blast
  have "split_loop ?e cfg_tenth talk three_tenths 0 [] world0
        = Some ([(segment_path_of cfg_tenth talk 0, 0, tenth),
                 (segment_path_of cfg_tenth talk tenth, tenth, ?a),
                 (segment_path_of cfg_tenth talk ?a, ?a, three_tenths)], w3)"
    unfolding s1 s2 s3 using lt(4) by (simp add: split_loop_stop)
  moreover have "\<not> three_tenths \<le> tenth" using lt(2) by simp
  ultimately have "split_audio_file ?e cfg_tenth world0 talk
        = Some ([(segment_path_of cfg_tenth talk 0, 0, tenth),
                 (segment_path_of cfg_tenth talk tenth, tenth, ?a),
                 (segment_path_of cfg_tenth talk ?a, ?a, three_tenths)], w3)"
    by (simp add: split_audio_file_def d t)
  moreover have "nat \<lceil>three_tenths / tenth\<rceil> = 4"
  proof -
    have "\<lceil>three_tenths / tenth\<rceil> = 4"
      unfolding ceiling_eq_iff by (simp add: tenth_def three_tenths_def)
    then show ?thesis by simp
  qed
  ultimately show ?thesis by (simp add: d t)
qed

text \<open>
  C7, as the code has it. For a positive threshold and a probed duration \<open>d \<ge> 0\<close> (the
  zero sentinel of a failed probe included), every segment of a plan the planner returns
  satisfies \<open>0 \<le> start \<le> end \<le> d\<close>, and \<open>start < end\<close> whenever \<open>d > 0\<close>; and the
  planner does return when the threshold is at least one second and \<open>d + 1\<close> is at most
  \<open>2^53\<close>.
\<close>

theorem split_audio_file_bounds:
  assumes "0 < max_segment_duration cfg" and "d = get_audio_duration e p" and "0 \<le> d"
  shows "(\<forall>segs w'. split_audio_file e cfg w p = Some (segs, w') \<longrightarrow>
            (\<forall>seg \<in> set segs. 0 \<le> seg_start seg \<and> seg_start seg \<le> seg_end seg \<and> seg_end seg \<le> d \<and>
                               (0 < d \<longrightarrow> seg_start seg < seg_end seg))) \<and>
         (1 \<le> max_segment_duration cfg \<and> d + 1 \<le> 2 ^ 53 \<longrightarrow>
            (\<exists>segs w'. split_audio_file e cfg w p = Some (segs, w')))"
proof (intro conjI allI impI)
  fix segs w'
  assume run: "split_audio_file e cfg w p = Some (segs, w')"
  show "\<forall>seg \<in> set segs. 0 \<le> seg_start seg \<and> seg_start seg \<le> seg_end seg \<and> seg_end seg \<le> d \<and>
                          (0 < d \<longrightarrow> seg_start seg < seg_end seg)"
  proof (cases "d \<le> max_segment_duration cfg")
    case True
    then have "segs = [(p, 0, d)]" using run assms(2) by (simp add: split_audio_file_def)
    then show ?thesis using assms(3) by (simp add: seg_start_def seg_end_def)
  next
    case False
    let ?t = "max_segment_duration cfg"
    define J where "J = (\<lambda>cur (segs :: segment list) (w :: world).
       0 \<le> cur \<and> (cur < d \<longrightarrow> round_double cur = cur) \<and>
       (\<forall>seg \<in> set segs. 0 \<le> seg_start seg \<and> seg_start seg < seg_end seg \<and> seg_end seg \<le> d))"
    have step: "J (min (fadd cur ?t) d)
                  (add_segment segs (fst (create_segment_file e cfg w p cur (min (fadd cur ?t) d)))
                     cur (min (fadd cur ?t) d))
                  (snd (create_segment_file e cfg w p cur (min (fadd cur ?t) d)))"
      if j: "J cur segs w" and lt: "cur < d" and moved: "min (fadd cur ?t) d \<noteq> cur"
      for cur segs w
    proof -
      have c0: "0 \<le> cur" and fl: "round_double cur = cur" using j lt by (simp_all add: J_def)
      have "round_double cur \<le> round_double (cur + ?t)"
        using c0 assms(1) by (intro round_double_mono) simp_all
      then have ge: "cur \<le> fadd cur ?t" by (simp only: fl fadd_def)
      then have "cur \<le> min (fadd cur ?t) d" using lt by simp
      then have gt: "cur < min (fadd cur ?t) d"
        using moved by (metis order.not_eq_order_implies_strict)
      have "0 \<le> cur + ?t" using c0 assms(1) by simp
      then have "round_double (fadd cur ?t) = fadd cur ?t"
        unfolding fadd_def by (rule round_double_idem)
      then have "min (fadd cur ?t) d < d \<longrightarrow> round_double (min (fadd cur ?t) d) = min (fadd cur ?t) d"
        by (simp add: min_def)
      then show ?thesis using j c0 gt
        by (auto simp: J_def add_segment_def seg_start_def seg_end_def split: option.splits)
    qed
    have loop: "split_loop e cfg p d 0 [] w = Some (segs, w')"
      using run False assms(2) by (simp add: split_audio_file_def)
    have "J 0 [] w" by (simp add: J_def round_double_def)
    from split_loop_partial(1) [of J d cfg e p, OF step loop this]
    show ?thesis by (auto simp: J_def)
  qed
next
  assume h: "1 \<le> max_segment_duration cfg \<and> d + 1 \<le> 2 ^ 53"
  show "\<exists>segs w'. split_audio_file e cfg w p = Some (segs, w')"
  proof (cases "d \<le> max_segment_duration cfg")
    case True
    then show ?thesis using assms(2) by (simp add: split_audio_file_def)
  next
    case False
    have "\<exists>y. split_loop e cfg p d 0 [] w = Some y"
      using h by (intro split_loop_total) simp_all
    then show ?thesis using False assms(2) by (auto simp: split_audio_file_def)
  qed
qed

text \<open>
  C7 as stated fails at the zero sentinel: a failed probe gives the single segment
  \<open>(audio_path, 0, 0)\<close>, whose start is not below its end.
\<close>

theorem split_audio_file_zero_sentinel:
  "split_audio_file env_probe_fails (default_config [lit ''dl'']) world0 talk
     = Some ([(talk, 0, 0)], world0) \<and>
   \<not> seg_start (talk, 0, 0) < seg_end (talk, 0, 0)"
  by (simp add: split_audio_file_def get_audio_duration_def env_probe_fails_def env_ok_def
      default_config_def seg_start_def seg_end_def)

theorem split_audio_file_bounds_witness:
  "\<exists>segs w'. split_audio_file (env_ok 2700) (default_config [lit ''dl'']) world0 talk = Some (segs, w') \<and>
      list_all (\<lambda>seg. 0 \<le> seg_start seg \<and> seg_start seg < seg_end seg \<and> seg_end seg \<le> 2700) segs"
proof -
  have a: "0 < max_segment_duration (default_config [lit ''dl''])"
          "1 \<le> max_segment_duration (default_config [lit ''dl''])"
    by (simp_all add: default_config_def)
  have b: "2700 = get_audio_duration (env_ok 2700) talk"
    by (simp add: get_audio_duration_def env_ok_def)
  have c: "(0::real) \<le> 2700" "(2700::real) + 1 \<le> 2 ^ 53" by simp_all
  from split_audio_file_bounds [OF a(1) b c(1), of world0] a(2) c(2)
  obtain segs w' where r: "split_audio_file (env_ok 2700) (default_config [lit ''dl'']) world0 talk = Some (segs, w')"
    by blast
  with split_audio_file_bounds [OF a(1) b c(1), of world0]
  have "\<forall>seg \<in> set segs. 0 \<le> seg_start seg \<and> seg_start seg \<le> seg_end seg \<and> seg_end seg \<le> 2700 \<and>
                          (0 < (2700::real) \<longrightarrow> seg_start seg < seg_end seg)"
    by blast
  then have "list_all (\<lambda>seg. 0 \<le> seg_start seg \<and> seg_start seg < seg_end seg \<and> seg_end seg \<le> 2700) segs"
    by (simp add: list_all_iff)
  with r show ?thesis by blast
qed

section \<open>Properties of the result merger\<close>

lemma merge_step_eq:
  "merge_step n (ft, ms) (k, r)
   = (ft @ block_text n (k, r), ms @ (if nonblank r then [as_merged_segment r] else []))"
  by (simp add: merge_step_def block_text_def nonblank_def as_merged_segment_def Let_def)

lemma merge_fold:
  "foldl (merge_step n) (ft, ms) (enumerate k rs)
   = (ft @ concat (map (block_text n) (enumerate k rs)),
      ms @ map as_merged_segment (filter nonblank rs))"
proof (induction rs arbitrary: ft ms k)
  case Nil
  then show ?case by simp
next
  case (Cons r rs)
  show ?case
    by (simp add: Cons.IH merge_step_eq)
qed

lemma merge_text:
  "rs \<noteq> [] \<Longrightarrow> m_text (merge_transcription_results now rs)
     = strip (concat (map (block_text (length rs)) (enumerate 0 rs)))"
  by (simp add: merge_transcription_results_def merge_fold Let_def)

lemma merge_segments:
  "m_segments (merge_transcription_results now rs) = map as_merged_segment (filter nonblank rs)"
  by (simp add: merge_transcription_results_def merge_fold Let_def)

lemma sort_results_perm:
  assumes "distinct (map r_start_time xs)" and "mset ys = mset xs"
  shows "sort_results ys = sort_results xs"
proof -
  have "mset ys = mset (sort_key r_start_time xs)" using assms by simp
  moreover have "inj_on r_start_time (set ys)"
    using assms by (metis distinct_map mset_eq_setD)
  moreover have "sorted (map r_start_time (sort_key r_start_time xs))" by simp
  ultimately show ?thesis
    unfolding sort_results_def by (rule sort_key_inj_key_eq)
qed




lemma dropWhile_keeps:
  assumes "M \<noteq> []" and "\<not> P (hd M)"
  shows "\<exists>pre. dropWhile P (A @ M @ B) = pre @ M @ B \<and> (list_all P A \<longrightarrow> pre = [])"
proof (induction A)
  case Nil
  from assms obtain m M' where "M = m # M'" "\<not> P m" by (cases M) auto
  then show ?case by simp
next
  case (Cons a A)
  then show ?case by (cases "P a") auto
qed

lemma lstrip_keeps:
  assumes "M \<noteq> []" and "\<not> isspace (hd M)"
  shows "\<exists>pre. lstrip (A @ M @ B) = pre @ M @ B \<and> (list_all isspace A \<longrightarrow> pre = [])"
  unfolding lstrip_def using dropWhile_keeps [where P = isspace and M = M, OF assms] .

lemma rstrip_keeps:
  assumes "M \<noteq> []" and "\<not> isspace (last M)"
  shows "\<exists>post. rstrip (A @ M @ B) = A @ M @ post"
proof -
  have "rev M \<noteq> []" "\<not> isspace (hd (rev M))" using assms by (simp_all add: hd_rev)
  from dropWhile_keeps [where P = isspace and M = "rev M" and A = "rev B" and B = "rev A", OF this]
  obtain pre where "dropWhile isspace (rev B @ rev M @ rev A) = pre @ rev M @ rev A" by blast
  then have "rstrip (A @ M @ B) = A @ M @ rev pre" by (simp add: rstrip_def)
  then show ?thesis by blast
qed

lemma strip_keeps:
  assumes "M \<noteq> []" and "\<not> isspace (hd M)" and "\<not> isspace (last M)"
  shows "\<exists>pre post. strip (A @ M @ B) = pre @ M @ post \<and> (list_all isspace A \<longrightarrow> pre = [])"
proof -
  from lstrip_keeps [OF assms(1,2), of A B]
  obtain pre where p: "lstrip (A @ M @ B) = pre @ M @ B" "list_all isspace A \<longrightarrow> pre = []"
    by blast
  from rstrip_keeps [OF assms(1,3), of pre B]
  obtain post where "rstrip (pre @ M @ B) = pre @ M @ post" by blast
  then show ?thesis using p by (auto simp: strip_def)
qed

lemma strip_id:
  assumes "s \<noteq> []" and "\<not> isspace (hd s)" and "\<not> isspace (last s)"
  shows "strip s = s"
proof -
  from assms obtain c cs where "s = c # cs" "\<not> isspace c" by (cases s) auto
  then have "lstrip s = s" by (simp add: lstrip_def)
  moreover from assms have "dropWhile isspace (rev s) = rev s"
    by (cases "rev s") (auto simp: last_rev hd_rev)
  ultimately show ?thesis by (simp add: strip_def rstrip_def)
qed

lemma strip_ends:
  assumes "strip s \<noteq> []"
  shows "\<not> isspace (hd (strip s))" and "\<not> isspace (last (strip s))"
proof -
  define u where "u = dropWhile isspace s"
  define v where "v = dropWhile isspace (rev u)"
  have sv: "strip s = rev v" by (simp add: strip_def lstrip_def rstrip_def u_def v_def)
  then have v: "v \<noteq> []" using assms by simp
  then have "\<not> isspace (hd v)" unfolding v_def by (rule hd_dropWhile)
  then show "\<not> isspace (last (strip s))" using sv v by (simp add: last_rev)
  have "rev u = takeWhile isspace (rev u) @ v" by (simp add: v_def)
  then have "u = rev v @ rev (takeWhile isspace (rev u))"
    by (metis rev_append rev_rev_ident)
  then have "hd u = hd (rev v)" using v by (metis hd_append2 rev_is_Nil_conv)
  moreover have "u \<noteq> []" using v v_def by auto
  then have "\<not> isspace (hd u)" unfolding u_def by (rule hd_dropWhile)
  ultimately show "\<not> isspace (hd (strip s))" using sv by simp
qed

lemma strip_strip: "strip (strip s) = strip s"
proof (cases "strip s = []")
  case True
  have "strip [] = []" by (simp add: strip_def lstrip_def rstrip_def)
  then show ?thesis using True by simp
next
  case False
  then show ?thesis using strip_ends [OF False] by (simp add: strip_id)
qed

lemma header_line_hd: "header_line i r \<noteq> [] \<and> hd (header_line i r) = 45"
  by (simp add: header_line_def lit_def)

lemma block_body:
  assumes "nonblank r"
  shows "header_line i r @ strip (r_text r) \<noteq> []"
    and "\<not> isspace (hd (header_line i r @ strip (r_text r)))"
    and "\<not> isspace (last (header_line i r @ strip (r_text r)))"
proof -
  show "header_line i r @ strip (r_text r) \<noteq> []" using header_line_hd [of i r] by simp
  have "hd (header_line i r @ strip (r_text r)) = 45" using header_line_hd [of i r] by simp
  then show "\<not> isspace (hd (header_line i r @ strip (r_text r)))" by (simp add: isspace_def)
  have "strip (r_text r) \<noteq> []" using assms by (simp add: nonblank_def)
  then show "\<not> isspace (last (header_line i r @ strip (r_text r)))"
    using strip_ends(2) [of "r_text r"] by simp
qed

lemma blocks_split:
  assumes "i < length rs" and "nonblank (rs ! i)" and "1 < n"
  shows "\<exists>A B. concat (map (block_text n) (enumerate 0 rs))
                 = (A @ [10, 10]) @ (header_line i (rs ! i) @ strip (r_text (rs ! i))) @ B
               \<and> (i = 0 \<longrightarrow> A = [])"
proof -
  let ?E = "enumerate 0 rs"
  have "i < length ?E" using assms(1) by simp
  then have "?E = take i ?E @ ?E ! i # drop (Suc i) ?E" by (rule id_take_nth_drop)
  moreover have "?E ! i = (i, rs ! i)" using assms(1) by (simp add: nth_enumerate_eq)
  ultimately have "?E = take i ?E @ (i, rs ! i) # drop (Suc i) ?E" by simp
  then have "concat (map (block_text n) ?E)
             = concat (map (block_text n) (take i ?E)) @ block_text n (i, rs ! i)
               @ concat (map (block_text n) (drop (Suc i) ?E))"
    by (metis concat.simps(2) concat_append list.simps(9) map_append)
  moreover have "block_text n (i, rs ! i)
                 = [10, 10] @ header_line i (rs ! i) @ strip (r_text (rs ! i))"
    using assms by (simp add: block_text_def block_header_def)
  ultimately have "concat (map (block_text n) ?E)
             = (concat (map (block_text n) (take i ?E)) @ [10, 10])
               @ (header_line i (rs ! i) @ strip (r_text (rs ! i)))
               @ concat (map (block_text n) (drop (Suc i) ?E))"
    by simp
  moreover have "i = 0 \<longrightarrow> concat (map (block_text n) (take i ?E)) = []" by simp
  ultimately show ?thesis by blast
qed

lemma merged_text_has_header:
  assumes "1 < length rs" and "i < length rs" and "nonblank (rs ! i)"
  shows "\<exists>pre post. m_text (merge_transcription_results now rs)
                       = pre @ (header_line i (rs ! i) @ strip (r_text (rs ! i))) @ post
                     \<and> (i = 0 \<longrightarrow> pre = [])"
proof -
  let ?M = "header_line i (rs ! i) @ strip (r_text (rs ! i))"
  from blocks_split [OF assms(2,3,1)]
  obtain A B where ab: "concat (map (block_text (length rs)) (enumerate 0 rs)) = (A @ [10, 10]) @ ?M @ B"
      "i = 0 \<longrightarrow> A = []"
    by blast
  from strip_keeps [OF block_body [OF assms(3), of i], of "A @ [10, 10]" B]
  obtain pre post where pp: "strip ((A @ [10, 10]) @ ?M @ B) = pre @ ?M @ post"
      "list_all isspace (A @ [10, 10]) \<longrightarrow> pre = []"
    by blast
  have "rs \<noteq> []" using assms(1) by auto
  then have "m_text (merge_transcription_results now rs)
             = strip (concat (map (block_text (length rs)) (enumerate 0 rs)))"
    by (rule merge_text)
  then have "m_text (merge_transcription_results now rs) = pre @ ?M @ post"
    using ab(1) pp(1) by metis
  moreover have "i = 0 \<longrightarrow> pre = []" using ab(2) pp(2) by (simp add: isspace_def)
  ultimately show ?thesis by blast
qed

text \<open>
  C4, as the code has it. When more than one result is merged, the header line
  \<open>--- <block word> i+1 (<start>s - <end>s) ---\<close> of the result at position \<open>i\<close>
  stands immediately before its text, for every result with non-blank text, the first
  one included: the merged text begins with the header of block 1. A sole result gives
  its stripped text with no header.
\<close>

theorem merged_text_headers:
  "(1 < length rs \<longrightarrow>
      (\<forall>i<length rs. nonblank (rs ! i) \<longrightarrow>
         (\<exists>pre post. m_text (merge_transcription_results now rs)
                        = pre @ header_line i (rs ! i) @ strip (r_text (rs ! i)) @ post)))
   \<and> (1 < length rs \<and> nonblank (hd rs) \<longrightarrow>
        prefix (header_line 0 (hd rs) @ strip (r_text (hd rs)))
               (m_text (merge_transcription_results now rs)))
   \<and> m_text (merge_transcription_results now [r]) = strip (r_text r)"
proof (intro conjI impI allI)
  fix i
  assume "1 < length rs" "i < length rs" "nonblank (rs ! i)"
  from merged_text_has_header [OF this, of now]
  show "\<exists>pre post. m_text (merge_transcription_results now rs)
                      = pre @ header_line i (rs ! i) @ strip (r_text (rs ! i)) @ post"
    by auto
next
  assume a: "1 < length rs \<and> nonblank (hd rs)"
  then have "length rs \<noteq> 0" by linarith
  then have "rs \<noteq> []" by simp
  then have h: "hd rs = rs ! 0" by (simp add: hd_conv_nth)
  have "0 < length rs" using a by linarith
  from merged_text_has_header [OF _ this, of now] a h
  obtain post where "m_text (merge_transcription_results now rs)
                       = (header_line 0 (rs ! 0) @ strip (r_text (rs ! 0))) @ post"
    by auto
  then show "prefix (header_line 0 (hd rs) @ strip (r_text (hd rs)))
               (m_text (merge_transcription_results now rs))"
    using h by (simp add: prefix_def)
next
  show "m_text (merge_transcription_results now [r]) = strip (r_text r)"
    by (simp add: merge_text block_text_def nonblank_def strip_strip)
       (simp add: strip_def lstrip_def rstrip_def)
qed

text \<open>
  C4 as stated fails: with two results the merged text has the header of block 1 in front
  of the first segment's text.
\<close>

theorem merged_text_first_header:
  "m_text (merge_transcription_results 0 [res_1, res_2])
     = lit ''--- '' @ block_word @ lit '' 1 (0s - 1800s) ---'' @ [10] @ lit ''first'' @ [10, 10]
       @ lit ''--- '' @ block_word @ lit '' 2 (1800s - 2700s) ---'' @ [10] @ lit ''second''"
  by (simp add: merge_text res_1_def res_2_def block_text_def nonblank_def
      block_header_def header_line_def strip_def lstrip_def rstrip_def isspace_def lit_def
      block_word_def fmt_f0_def round_half_even_def dec.simps enumerate_eq_zip)

text \<open>The same two results, and the first of them alone.\<close>

theorem merged_text_headers_witness:
  "prefix (header_line 0 res_1 @ lit ''first'') (m_text (merge_transcription_results 0 [res_1, res_2]))
   \<and> m_text (merge_transcription_results 0 [res_1]) = lit ''first''"
proof -
  have st: "strip (r_text res_1) = lit ''first''"
    by (simp add: res_1_def strip_def lstrip_def rstrip_def isspace_def lit_def)
  then have nb: "nonblank res_1" by (simp add: nonblank_def lit_def)
  show ?thesis
    using merged_text_headers [of "[res_1, res_2]" 0 res_1] st nb by simp
qed

lemma retry_loop_text:
  "retry_loop cfg api attempts tr = (Returned (Some t), tr') \<Longrightarrow> t \<noteq> [] \<and> strip t = t"
proof (induction attempts arbitrary: tr)
  case Nil
  then show ?case by simp
next
  case (Cons a attempts)
  then show ?case
    by (auto simp: Let_def strip_strip split: api_outcome.splits if_splits)
qed

lemma transcribe_segment_text:
  assumes "transcribe_segment_async e cfg g = Some r"
  shows "nonblank r" and "strip (r_text r) = r_text r"
    and "r_start_time r = seg_start g" and "r_end_time r = seg_end g" and "r_segment_path r = seg_path g"
proof -
  obtain sp s en where g: "g = (sp, s, en)" by (cases g) auto
  from assms obtain t tr where c: "call_gemini_api_with_retry cfg (gemini e sp) = (Returned (Some t), tr)"
      and r: "r = \<lparr> r_text = strip t, r_start_time = s, r_end_time = en, r_segment_path = sp,
                     r_processing_time = clock e \<rparr>"
    unfolding transcribe_segment_async_def g
    by (cases "call_gemini_api_with_retry cfg (gemini e sp)")
       (auto split: if_splits option.splits call_result.splits)
  from c have t: "t \<noteq> [] \<and> strip t = t"
    unfolding call_gemini_api_with_retry_def by (rule retry_loop_text)
  show "nonblank r" using t r by (simp add: nonblank_def)
  show "strip (r_text r) = r_text r" using t r by simp
  show "r_start_time r = seg_start g" "r_end_time r = seg_end g" "r_segment_path r = seg_path g"
    using r g by (simp_all add: seg_start_def seg_end_def seg_path_def)
qed

lemma merge_two:
  assumes "nonblank r1" "strip (r_text r1) = r_text r1" "nonblank r3" "strip (r_text r3) = r_text r3"
  shows "m_text (merge_transcription_results now [r1, r3])
           = header_line 0 r1 @ r_text r1 @ [10, 10] @ header_line 1 r3 @ r_text r3"
proof -
  let ?X = "header_line 0 r1 @ r_text r1 @ [10, 10] @ header_line 1 r3 @ r_text r3"
  have c: "concat (map (block_text (length [r1, r3])) (enumerate 0 [r1, r3])) = [10, 10] @ ?X"
    using assms by (simp add: block_text_def block_header_def)
  have "[r1, r3] \<noteq> []" by simp
  then have "m_text (merge_transcription_results now [r1, r3])
             = strip (concat (map (block_text (length [r1, r3])) (enumerate 0 [r1, r3])))"
    by (rule merge_text)
  also have "\<dots> = strip ([10, 10] @ ?X)" by (simp only: c)
  also have "\<dots> = strip ?X"
  proof -
    have "lstrip ([10, 10] @ ?X) = lstrip ?X" by (simp add: lstrip_def isspace_def)
    then show ?thesis by (simp only: strip_def)
  qed
  also have "\<dots> = ?X"
  proof (rule strip_id)
    show "?X \<noteq> []" using header_line_hd [of 0 r1] by simp
    have "hd ?X = 45" using header_line_hd [of 0 r1] by simp
    then show "\<not> isspace (hd ?X)" by (simp add: isspace_def)
    have "r_text r3 \<noteq> []" using assms(3,4) by (simp add: nonblank_def)
    moreover have "\<not> isspace (last (r_text r3))"
      using strip_ends(2) [of "r_text r3"] assms(3,4) by (simp add: nonblank_def)
    ultimately show "\<not> isspace (last ?X)" by simp
  qed
  finally show ?thesis .
qed

text \<open>
  For segments with pairwise distinct start offsets the batch is the same whatever the
  order in which the tasks complete.
\<close>

lemma batch_ignores_completion_order:
  assumes "distinct (map seg_start segs)"
  shows "transcribe_audio_parallel (e\<lparr>gemini_finished := g\<rparr>) cfg segs
         = transcribe_audio_parallel e cfg segs"
proof -
  let ?f = "transcribe_segment_async e cfg"
  let ?P = "\<lambda>x. ?f x \<noteq> None"
  have f: "transcribe_segment_async (e\<lparr>gemini_finished := g\<rparr>) cfg = ?f"
    by (rule ext) (simp add: transcribe_segment_async_def split: prod.splits option.splits call_result.splits)
  have starts: "map r_start_time (List.map_filter ?f zs) = map seg_start (filter ?P zs)" for zs
    by (induction zs) (auto simp: map_filter_def transcribe_segment_text(3))
  have d: "distinct (map r_start_time (List.map_filter ?f (sort_key k segs)))" for k
  proof -
    have "mset (map seg_start (sort_key k segs)) = mset (map seg_start segs)" by simp
    then have "distinct (map seg_start (sort_key k segs))"
      using assms by (metis mset_eq_imp_distinct_iff)
    then show ?thesis unfolding starts by (rule distinct_map_filter)
  qed
  have m: "mset (List.map_filter ?f (sort_key k segs)) = mset (List.map_filter ?f (sort_key k' segs))"
    for k k'
    by (simp add: map_filter_def)
  have "sort_results (List.map_filter ?f (sort_key g segs))
        = sort_results (List.map_filter ?f (sort_key (gemini_finished e) segs))"
    using d m by (rule sort_results_perm)
  then show ?thesis by (simp add: transcribe_audio_parallel_def as_completed_def f)
qed

lemma batch_of_three:
  assumes "transcribe_segment_async e cfg g1 = Some r1"
      and "transcribe_segment_async e cfg g2 = None"
      and "transcribe_segment_async e cfg g3 = Some r3"
      and "seg_start g1 < seg_start g3"
  shows "transcribe_audio_parallel e cfg [g1, g2, g3] = [r1, r3]"
proof -
  let ?f = "transcribe_segment_async e cfg"
  let ?ys = "List.map_filter ?f (as_completed e [g1, g2, g3])"
  have s: "r_start_time r1 = seg_start g1" "r_start_time r3 = seg_start g3"
    using transcribe_segment_text(3) assms(1,3) by simp_all
  have "mset ?ys = image_mset (the \<circ> ?f) (filter_mset (\<lambda>x. ?f x \<noteq> None) (mset [g1, g2, g3]))"
    by (simp add: map_filter_def as_completed_def)
  also have "\<dots> = mset [r1, r3]" using assms(1,2,3) by simp
  finally have m: "mset ?ys = mset [r1, r3]" .
  have d: "distinct (map r_start_time [r1, r3])" using s assms(4) by simp
  have "sort_results ?ys = sort_results [r1, r3]" using d m by (rule sort_results_perm)
  also have "\<dots> = [r1, r3]" using s assms(4) by (simp add: sort_results_def)
  finally show ?thesis by (simp add: transcribe_audio_parallel_def)
qed

text \<open>
  C6, as the code has it. Of three segments the second gives no result and the first and
  third do, the first starting before the third. Whatever the completion order, the batch
  is the first and the third result in that order; the merged text is their two texts,
  each under its header, and the listing has their two entries. The third segment's
  header and listing entry carry its own start and end offsets, and the block number 2:
  blocks are numbered by position among the results that arrived.
\<close>

theorem merge_skips_failed_segment:
  assumes "transcribe_segment_async e cfg g1 = Some r1"
      and "transcribe_segment_async e cfg g2 = None"
      and "transcribe_segment_async e cfg g3 = Some r3"
      and "seg_start g1 < seg_start g3"
  shows "transcribe_audio_parallel e cfg [g1, g2, g3] = [r1, r3]
       \<and> m_text (merge_transcription_results now [r1, r3])
           = lit ''--- '' @ block_word @ lit '' 1 ('' @ fmt_f0 (seg_start g1) @ lit ''s - ''
               @ fmt_f0 (seg_end g1) @ lit ''s) ---'' @ [10] @ r_text r1 @ [10, 10]
             @ lit ''--- '' @ block_word @ lit '' 2 ('' @ fmt_f0 (seg_start g3) @ lit ''s - ''
               @ fmt_f0 (seg_end g3) @ lit ''s) ---'' @ [10] @ r_text r3
       \<and> m_segments (merge_transcription_results now [r1, r3])
           = [\<lparr> ms_start = seg_start g1, ms_end = seg_end g1, ms_text = r_text r1 \<rparr>,
              \<lparr> ms_start = seg_start g3, ms_end = seg_end g3, ms_text = r_text r3 \<rparr>]
       \<and> detail_listing (m_segments (merge_transcription_results now [r1, r3]))
           = [35443, 32048, 20998, 27573, 58, 10]
             @ lit ''['' @ block_word @ lit '' 1] '' @ mmss (seg_start g1) @ lit '' - ''
               @ mmss (seg_end g1) @ [10] @ r_text r1 @ [10, 10]
             @ lit ''['' @ block_word @ lit '' 2] '' @ mmss (seg_start g3) @ lit '' - ''
               @ mmss (seg_end g3) @ [10] @ r_text r3 @ [10, 10]"
proof -
  note t1 = transcribe_segment_text [OF assms(1)]
  note t3 = transcribe_segment_text [OF assms(3)]
  have d: "dec 1 = lit ''1''" "dec 2 = lit ''2''" "dec (Suc 0) = lit ''1''"
    by (simp_all add: dec.simps lit_def)
  have d2: "dec (Suc (Suc 0)) = lit ''2''"
    using d(2) by (simp only: numeral_2_eq_2)
  have a: "transcribe_audio_parallel e cfg [g1, g2, g3] = [r1, r3]"
    using assms by (rule batch_of_three)
  have b: "m_text (merge_transcription_results now [r1, r3])
           = lit ''--- '' @ block_word @ lit '' 1 ('' @ fmt_f0 (seg_start g1) @ lit ''s - ''
               @ fmt_f0 (seg_end g1) @ lit ''s) ---'' @ [10] @ r_text r1 @ [10, 10]
             @ lit ''--- '' @ block_word @ lit '' 2 ('' @ fmt_f0 (seg_start g3) @ lit ''s - ''
               @ fmt_f0 (seg_end g3) @ lit ''s) ---'' @ [10] @ r_text r3"
    using merge_two [OF t1(1,2) t3(1,2), of now] t1(3,4) t3(3,4) d d2
    by (simp add: header_line_def lit_def)
  have c: "m_segments (merge_transcription_results now [r1, r3])
           = [\<lparr> ms_start = seg_start g1, ms_end = seg_end g1, ms_text = r_text r1 \<rparr>,
              \<lparr> ms_start = seg_start g3, ms_end = seg_end g3, ms_text = r_text r3 \<rparr>]"
    using t1 t3 by (simp add: merge_segments as_merged_segment_def)
  have "detail_listing [\<lparr> ms_start = seg_start g1, ms_end = seg_end g1, ms_text = r_text r1 \<rparr>,
              \<lparr> ms_start = seg_start g3, ms_end = seg_end g3, ms_text = r_text r3 \<rparr>]
           = [35443, 32048, 20998, 27573, 58, 10]
             @ lit ''['' @ block_word @ lit '' 1] '' @ mmss (seg_start g1) @ lit '' - ''
               @ mmss (seg_end g1) @ [10] @ r_text r1 @ [10, 10]
             @ lit ''['' @ block_word @ lit '' 2] '' @ mmss (seg_start g3) @ lit '' - ''
               @ mmss (seg_end g3) @ [10] @ r_text r3 @ [10, 10]"
    using t1(2) t3(2) d d2 by (simp add: detail_listing_def detail_line_def lit_def)
  then show ?thesis using a b c by simp
qed

lemmas eval_defs = transcribe_segment_async_def call_gemini_api_with_retry_def default_config_def
  upt_3 accumulate_def strip_def lstrip_def rstrip_def isspace_def lit_def name_def env_ok_def

lemma second_fails_eval:
  "transcribe_segment_async env_second_fails (default_config [lit ''dl''])
     ([lit ''dl'', lit ''001.mp3''], 0, 1800) = Some res_first"
  "transcribe_segment_async env_second_fails (default_config [lit ''dl''])
     ([lit ''dl'', lit ''002.mp3''], 1800, 3600) = None"
  "transcribe_segment_async env_second_fails (default_config [lit ''dl''])
     ([lit ''dl'', lit ''003.mp3''], 3600, 5400) = Some res_third"
  by (simp_all add: eval_defs env_second_fails_def res_first_def res_third_def)

text \<open>
  C6 as stated fails: in a ninety-minute file whose second segment fails, the text of the
  third segment stands under \<open>block 2 (3600s - 5400s)\<close>.
\<close>

theorem merged_text_renumbers_third:
  "m_text (merge_transcription_results 0
      (transcribe_audio_parallel env_second_fails (default_config [lit ''dl'']) plan3))
   = lit ''--- '' @ block_word @ lit '' 1 (0s - 1800s) ---'' @ [10] @ lit ''text of 001.mp3''
     @ [10, 10]
     @ lit ''--- '' @ block_word @ lit '' 2 (3600s - 5400s) ---'' @ [10] @ lit ''text of 003.mp3''"
proof -
  have "transcribe_audio_parallel env_second_fails (default_config [lit ''dl'']) plan3
        = [res_first, res_third]"
    unfolding plan3_def
    by (rule batch_of_three [OF second_fails_eval]) (simp add: seg_start_def)
  then show ?thesis
    by (simp add: merge_text res_first_def res_third_def block_text_def nonblank_def
      block_header_def header_line_def strip_def lstrip_def rstrip_def isspace_def lit_def
      block_word_def fmt_f0_def round_half_even_def dec.simps enumerate_eq_zip)
qed

text \<open>The ninety-minute file whose second segment fails.\<close>

theorem merge_skips_failed_segment_witness:
  "transcribe_audio_parallel env_second_fails (default_config [lit ''dl'']) plan3
     = [res_first, res_third]
   \<and> m_segments (merge_transcription_results 0 [res_first, res_third])
     = [\<lparr> ms_start = 0, ms_end = 1800, ms_text = lit ''text of 001.mp3'' \<rparr>,
        \<lparr> ms_start = 3600, ms_end = 5400, ms_text = lit ''text of 003.mp3'' \<rparr>]"
proof -
  have "seg_start ([lit ''dl'', lit ''001.mp3''], 0, 1800) < seg_start ([lit ''dl'', lit ''003.mp3''], 3600, 5400)"
    by (simp add: seg_start_def)
  from merge_skips_failed_segment [OF second_fails_eval this, of 0]
  show ?thesis
    by (simp add: plan3_def seg_start_def seg_end_def res_first_def res_third_def)
qed

section \<open>Properties of paths, the file system and the processing of one file\<close>

lemma rfind_last_dot:
  assumes "c \<notin> set r"
  shows "rfind c (a @ c # r) = int (length a)"
proof -
  have "takeWhile (\<lambda>x. x \<noteq> c) (rev r @ c # rev a) = rev r"
    using assms by (auto simp: takeWhile_append2 takeWhile_tail)
  then show ?thesis by (simp add: rfind_def)
qed

lemma suffix_of_append:
  assumes "a \<noteq> []" and "r \<noteq> []" and "46 \<notin> set r"
  shows "suffix_of (a @ 46 # r) = 46 # r"
  using assms by (simp add: suffix_of_def rfind_last_dot Let_def)

lemma suffix_of_shape:
  assumes "suffix_of n \<noteq> []"
  shows "\<exists>a r. n = a @ 46 # r \<and> a \<noteq> [] \<and> r \<noteq> [] \<and> 46 \<notin> set r \<and> suffix_of n = 46 # r"
proof -
  let ?tw = "takeWhile (\<lambda>x. x \<noteq> 46) (rev n)"
  let ?dw = "dropWhile (\<lambda>x. x \<noteq> 46) (rev n)"
  have m: "46 \<in> set n"
    using assms by (auto simp: suffix_of_def rfind_def Let_def split: if_splits)
  then have "?dw \<noteq> []" by (simp add: dropWhile_eq_Nil_conv) 
  moreover have "?dw \<noteq> [] \<Longrightarrow> hd ?dw = 46" using hd_dropWhile [of "\<lambda>x. x \<noteq> 46" "rev n"] by simp
  ultimately obtain rest where dw: "?dw = 46 # rest" by (cases ?dw) auto
  have "rev n = ?tw @ ?dw" by simp
  then have "rev n = ?tw @ 46 # rest" using dw by simp
  then have n: "n = rev rest @ 46 # rev ?tw" by (metis rev_append rev.simps(2) rev_rev_ident append.assoc append_Cons append_Nil)
  have nd: "46 \<notin> set (rev ?tw)" using set_takeWhileD [of 46 "\<lambda>x. x \<noteq> 46" "rev n"] by auto
  have rf: "rfind 46 n = int (length (rev rest))"
    using rfind_last_dot [OF nd, of "rev rest"] n by simp
  have c: "0 < rfind 46 n \<and> rfind 46 n < int (length n) - 1"
    using assms by (auto simp: suffix_of_def Let_def split: if_splits)
  have "length n = length rest + 1 + length ?tw" using arg_cong [OF n, of length] by simp
  then have "rev rest \<noteq> []" "rev ?tw \<noteq> []" using c rf by auto
  moreover have "suffix_of n = 46 # rev ?tw"
    using suffix_of_append [OF \<open>rev rest \<noteq> []\<close> \<open>rev ?tw \<noteq> []\<close> nd] n by simp
  ultimately show ?thesis using n nd by blast
qed

lemma dec_chars: "dec n \<noteq> [] \<and> 46 \<notin> set (dec n)"
proof (induction n rule: dec.induct)
  case (1 n)
  show ?case
  proof (cases "n < 10")
    case True
    then show ?thesis by (subst dec.simps, subst (2) dec.simps) simp
  next
    case False
    then have "dec n = dec (n div 10) @ [48 + n mod 10]" by (subst dec.simps) simp
    then show ?thesis using 1 False by simp
  qed
qed

lemma fmt_0d_chars: "fmt_0d w n \<noteq> [] \<and> 46 \<notin> set (fmt_0d w n) \<and> hd (fmt_0d w n) \<noteq> 46"
proof -
  have z: "zfill k s \<noteq> [] \<and> 46 \<notin> set (zfill k s)" if "s \<noteq> []" "46 \<notin> set s" for k s
    using that by (auto simp: zfill_def)
  have "fmt_0d w n \<noteq> []" "46 \<notin> set (fmt_0d w n)"
    using z [of "dec (nat n)"] z [of "dec (nat (- n))"] dec_chars by (auto simp: fmt_0d_def)
  then show ?thesis by (cases "fmt_0d w n") auto
qed

lemma txt_lit: "lit ''.txt'' = 46 # [116, 120, 116]"
  by (simp add: lit_def)

lemma transcript_path_shape:
  assumes "name p \<noteq> []"
  shows "\<exists>a. a \<noteq> [] \<and> get_transcript_path p = Some (joinpath (parent p) (a @ lit ''.txt''))
            \<and> (path_suffix p = lit ''.txt'' \<longrightarrow> joinpath (parent p) (a @ lit ''.txt'') = p)"
proof (cases "path_suffix p = []")
  case True
  then show ?thesis using assms
    by (auto simp: get_transcript_path_def with_suffix_def Let_def txt_lit)
next
  case False
  then have "suffix_of (name p) \<noteq> []" by (simp add: path_suffix_def)
  from suffix_of_shape [OF this]
  obtain a r where ar: "name p = a @ 46 # r" "a \<noteq> []" "suffix_of (name p) = 46 # r" by blast
  then have t: "take (length (name p) - length (path_suffix p)) (name p) = a"
    by (simp add: path_suffix_def)
  have "p \<noteq> []" using assms by (auto simp: name_def)
  then have "joinpath (parent p) (name p) = p" by (simp add: joinpath_def parent_def name_def)
  then have "path_suffix p = lit ''.txt'' \<longrightarrow> joinpath (parent p) (a @ lit ''.txt'') = p"
    using ar by (auto simp: path_suffix_def)
  moreover have "get_transcript_path p = Some (joinpath (parent p) (a @ lit ''.txt''))"
    using assms False t by (simp add: get_transcript_path_def with_suffix_def Let_def)
  ultimately show ?thesis using ar(2) by blast
qed

lemma segment_not_transcript:
  assumes "get_transcript_path p = Some tp" and "tp \<noteq> p"
  shows "segment_path_of cfg p s \<noteq> tp"
proof
  assume eq: "segment_path_of cfg p s = tp"
  let ?f = "fmt_0d 3 (segment_index cfg s)"
  have "name p \<noteq> []" using assms(1)
    by (auto simp: get_transcript_path_def with_suffix_def split: if_splits)
  from transcript_path_shape [OF this] assms
  obtain a where a: "a \<noteq> []" "tp = joinpath (parent p) (a @ lit ''.txt'')"
      "path_suffix p \<noteq> lit ''.txt''"
    by auto
  have names: "?f @ path_suffix p = a @ lit ''.txt''"
    using eq a(2) by (simp add: segment_path_of_def joinpath_def)
  have st: "suffix_of (a @ lit ''.txt'') = lit ''.txt''"
    unfolding txt_lit using a(1) by (intro suffix_of_append) simp_all
  show False
  proof (cases "path_suffix p = []")
    case True
    then have "?f = a @ 46 # [116, 120, 116]" using names by (simp add: txt_lit)
    then have "46 \<in> set ?f" by simp
    then show False using fmt_0d_chars by blast
  next
    case False
    then have "suffix_of (name p) \<noteq> []" by (simp add: path_suffix_def)
    from suffix_of_shape [OF this]
    obtain r where r: "path_suffix p = 46 # r" "r \<noteq> []" "46 \<notin> set r"
      by (auto simp: path_suffix_def)
    have "suffix_of (?f @ 46 # r) = 46 # r"
      using fmt_0d_chars r by (intro suffix_of_append) auto
    then have "path_suffix p = lit ''.txt''" using names st r(1) by simp
    then show False using a(3) by simp
  qed
qed

lemma path_exists_create: "path_exists (create_file q fs) x \<longleftrightarrow> x = q \<or> path_exists fs x"
  by (auto simp: path_exists_def create_file_def)

lemma is_file_create: "is_file (create_file q fs) x \<longleftrightarrow> x = q \<or> is_file fs x"
  by (auto simp: is_file_def create_file_def)

lemma path_exists_unlink: "path_exists (unlink q fs) x \<longleftrightarrow> x \<noteq> q \<and> path_exists fs x"
  by (auto simp: path_exists_def unlink_def)

lemma is_file_unlink: "is_file (unlink q fs) x \<longleftrightarrow> x \<noteq> q \<and> is_file fs x"
  by (auto simp: is_file_def unlink_def)

lemma create_segment_file_world:
  assumes "create_segment_file e cfg w p s en = (r, w')"
  shows "written w' = written w"
    and "r = None \<Longrightarrow> files w' = files w"
    and "r = Some q \<Longrightarrow> q = segment_path_of cfg p s \<and> files w' = create_file q (files w)"
  using assms
  by (auto simp: create_segment_file_def Let_def split: if_splits run_outcome.splits)

lemma planner_inv_step:
  assumes "planner_inv cfg p w segs w'"
  shows "planner_inv cfg p w
           (add_segment segs (fst (create_segment_file e cfg w' p cur en)) cur en)
           (snd (create_segment_file e cfg w' p cur en))"
proof (cases "create_segment_file e cfg w' p cur en")
  case (Pair r w'')
  note c = create_segment_file_world [OF Pair]
  show ?thesis
  proof (cases r)
    case None
    then show ?thesis using assms c(1) c(2) Pair
      by (simp add: planner_inv_def add_segment_def)
  next
    case (Some q)
    then have "q = segment_path_of cfg p cur" "files w'' = create_file q (files w')"
      using c(3) by simp_all
    then show ?thesis using assms c(1) Pair Some
      by (auto simp: planner_inv_def add_segment_def path_exists_create is_file_create
          seg_path_def)
  qed
qed

lemma split_audio_file_world:
  assumes "split_audio_file e cfg w p = Some (segs, w')"
  shows "segs = [(p, 0, get_audio_duration e p)] \<and> w' = w \<or> planner_inv cfg p w segs w'"
proof (cases "get_audio_duration e p \<le> max_segment_duration cfg")
  case True
  then show ?thesis using assms by (simp add: split_audio_file_def)
next
  case False
  then have loop: "split_loop e cfg p (get_audio_duration e p) 0 [] w = Some (segs, w')"
    using assms by (simp add: split_audio_file_def)
  have init: "planner_inv cfg p w [] w" by (simp add: planner_inv_def)
  from split_loop_partial(1) [where J = "\<lambda>cur. planner_inv cfg p w", OF planner_inv_step loop init]
  show ?thesis by simp
qed

lemma is_file_exists: "is_file fs x \<Longrightarrow> path_exists fs x"
  by (force simp: is_file_def path_exists_def)

lemma cleanup_path_exists:
  "path_exists (cleanup_segments e segs orig fs) x \<longleftrightarrow>
     path_exists fs x \<and> \<not> (x \<noteq> orig \<and> x \<in> seg_path ` set segs \<and> \<not> unlink_raises e x)"
proof (induction segs arbitrary: fs)
  case Nil
  then show ?case by (simp add: cleanup_segments_def)
next
  case (Cons seg segs)
  obtain q s en where seg: "seg = (q, s, en)" by (cases seg) auto
  have "cleanup_segments e (seg # segs) orig fs
        = cleanup_segments e segs orig (cleanup_one e orig seg fs)"
    by (simp add: cleanup_segments_def)
  then show ?case using Cons.IH [of "cleanup_one e orig seg fs"] seg
    by (auto simp: cleanup_one_def path_exists_unlink seg_path_def)
qed

lemma cleanup_is_file:
  "is_file (cleanup_segments e segs orig fs) x \<longleftrightarrow>
     is_file fs x \<and> \<not> (x \<noteq> orig \<and> x \<in> seg_path ` set segs \<and> \<not> unlink_raises e x)"
proof (induction segs arbitrary: fs)
  case Nil
  then show ?case by (simp add: cleanup_segments_def)
next
  case (Cons seg segs)
  obtain q s en where seg: "seg = (q, s, en)" by (cases seg) auto
  have "cleanup_segments e (seg # segs) orig fs
        = cleanup_segments e segs orig (cleanup_one e orig seg fs)"
    by (simp add: cleanup_segments_def)
  then show ?case using Cons.IH [of "cleanup_one e orig seg fs"] seg
    by (auto simp: cleanup_one_def is_file_unlink seg_path_def dest: is_file_exists)
qed

lemma batch_empty:
  assumes "\<forall>seg \<in> set segs. transcribe_segment_async e cfg seg = None"
  shows "transcribe_audio_parallel e cfg segs = []"
proof -
  have "filter (\<lambda>x. transcribe_segment_async e cfg x \<noteq> None) (as_completed e segs) = []"
    using assms by (simp add: as_completed_def filter_empty_conv)
  then show ?thesis
    by (simp add: transcribe_audio_parallel_def map_filter_def sort_results_def)
qed

text \<open>What planning leaves behind, for a file that exists and has no transcript yet.\<close>

lemma planned_world:
  assumes t: "0 < max_segment_duration cfg"
      and f: "is_file (files w) p"
      and n: "needs_transcription (files w) p = Some True"
      and s: "split_audio_file e cfg w p = Some (segs, w1)"
  shows "\<exists>tp. get_transcript_path p = Some tp \<and> tp \<noteq> p \<and> \<not> path_exists (files w1) tp
              \<and> tp \<notin> seg_path ` set segs"
    and "is_file (files w1) p"
    and "written w1 = written w"
    and "\<forall>seg \<in> set segs. path_exists (files w1) (seg_path seg)"
    and "\<forall>x. path_exists (files w) x \<longrightarrow> path_exists (files w1) x"
proof -
  from n obtain tp where tp: "get_transcript_path p = Some tp" "\<not> path_exists (files w) tp"
    by (auto simp: needs_transcription_def split: option.splits)
  have ne: "tp \<noteq> p" using tp(2) is_file_exists [OF f] by auto
  from split_audio_file_world [OF s]
  have c: "segs = [(p, 0, get_audio_duration e p)] \<and> w1 = w \<or> planner_inv cfg p w segs w1" .
  have nt: "tp \<notin> seg_path ` set segs"
  proof
    assume "tp \<in> seg_path ` set segs"
    then obtain seg where seg: "seg \<in> set segs" "seg_path seg = tp" by auto
    from c show False
    proof
      assume "segs = [(p, 0, get_audio_duration e p)] \<and> w1 = w"
      then show False using seg ne by (simp add: seg_path_def)
    next
      assume "planner_inv cfg p w segs w1"
      then obtain s0 where "seg_path seg = segment_path_of cfg p s0"
        using seg(1) by (auto simp: planner_inv_def list_all_iff)
      then show False using segment_not_transcript [OF tp(1) ne, of cfg s0] seg(2) by simp
    qed
  qed
  have "\<not> path_exists (files w1) tp"
    using c tp(2) nt by (auto simp: planner_inv_def)
  then show "\<exists>tp. get_transcript_path p = Some tp \<and> tp \<noteq> p \<and> \<not> path_exists (files w1) tp
              \<and> tp \<notin> seg_path ` set segs"
    using tp(1) ne nt by blast
  show "is_file (files w1) p" using c f by (auto simp: planner_inv_def)
  show "written w1 = written w" using c by (auto simp: planner_inv_def)
  show "\<forall>seg \<in> set segs. path_exists (files w1) (seg_path seg)"
    using c is_file_exists [OF f] by (auto simp: planner_inv_def seg_path_def)
  show "\<forall>x. path_exists (files w) x \<longrightarrow> path_exists (files w1) x"
    using c by (auto simp: planner_inv_def)
qed

text \<open>
  C5. An audio file that exists and has no transcript is processed (positive threshold),
  and every segment the planner returned fails transcription. Then the batch is empty,
  the merged text of the batch is empty, \<open>process_audio_file_async\<close> returns
  \<open>False\<close>, nothing was written to any transcript, the derived transcript path still
  does not exist, and \<open>needs_transcription\<close> is still true for the file.
\<close>

theorem all_segments_fail:
  assumes "0 < max_segment_duration cfg"
      and "is_file (files w) p"
      and "needs_transcription (files w) p = Some True"
      and "split_audio_file e cfg w p = Some (segs, w1)"
      and "\<forall>seg \<in> set segs. transcribe_segment_async e cfg seg = None"
  shows "transcribe_audio_parallel e cfg segs = []
       \<and> m_text (merge_transcription_results (clock e) (transcribe_audio_parallel e cfg segs)) = []
       \<and> process_audio_file_async e cfg w p = Some (False, w1)
       \<and> written w1 = written w
       \<and> (\<exists>tp. get_transcript_path p = Some tp \<and> \<not> path_exists (files w1) tp)
       \<and> needs_transcription (files w1) p = Some True"
proof -
  have b: "transcribe_audio_parallel e cfg segs = []" using assms(5) by (rule batch_empty)
  note pw = planned_world [OF assms(1-4)]
  from pw(1) obtain tp where tp: "get_transcript_path p = Some tp" "\<not> path_exists (files w1) tp"
    by blast
  have "process_audio_file_async e cfg w p = Some (False, w1)"
    using assms(3,4) b by (simp add: process_audio_file_async_def)
  moreover have "m_text (merge_transcription_results (clock e) []) = []"
    by (simp add: merge_transcription_results_def)
  moreover have "needs_transcription (files w1) p = Some True"
    using tp by (simp add: needs_transcription_def)
  ultimately show ?thesis using b pw(3) tp by auto
qed

text \<open>
  C8, as the code has it. An audio file that exists and has no transcript is processed
  (positive threshold) and at least one segment is transcribed. Every segment file
  exists after planning. If the transcript is written, the call returns \<open>True\<close>, the
  transcript and the original audio file exist, and every segment file other than the
  original whose \<open>unlink\<close> does not raise is gone. If the write fails, the call
  returns \<open>False\<close>, nothing that existed after planning is deleted, the original
  exists, and when it was \<open>open\<close> that failed no transcript exists.
\<close>

theorem process_cleanup:
  assumes "0 < max_segment_duration cfg"
      and "is_file (files w) p"
      and "needs_transcription (files w) p = Some True"
      and "split_audio_file e cfg w p = Some (segs, w1)"
      and "transcribe_audio_parallel e cfg segs \<noteq> []"
      and "get_transcript_path p = Some tp"
  shows "(\<forall>seg \<in> set segs. path_exists (files w1) (seg_path seg))
       \<and> (write_file e tp = Written \<longrightarrow>
            (\<exists>w2. process_audio_file_async e cfg w p = Some (True, w2)
                \<and> is_file (files w2) tp \<and> is_file (files w2) p
                \<and> (\<forall>seg \<in> set segs. seg_path seg \<noteq> p \<and> \<not> unlink_raises e (seg_path seg)
                       \<longrightarrow> \<not> path_exists (files w2) (seg_path seg))))
       \<and> (write_file e tp \<noteq> Written \<longrightarrow>
            (\<exists>w2. process_audio_file_async e cfg w p = Some (False, w2)
                \<and> (\<forall>x. path_exists (files w1) x \<longrightarrow> path_exists (files w2) x)
                \<and> is_file (files w2) p
                \<and> (write_file e tp = OpenRaises \<longrightarrow> \<not> path_exists (files w2) tp)))"
proof -
  note pw = planned_world [OF assms(1-4)]
  from pw(1) assms(6)
  have tp: "tp \<noteq> p" "\<not> path_exists (files w1) tp" "tp \<notin> seg_path ` set segs" by auto
  have ne: "segs \<noteq> []" using assms(5)
    by (auto simp: transcribe_audio_parallel_def as_completed_def sort_results_def map_filter_def)
  let ?m = "merge_transcription_results (clock e) (transcribe_audio_parallel e cfg segs)"
  have run: "process_audio_file_async e cfg w p
             = (if fst (save_transcript e cfg w1 p ?m)
                then Some (True, (snd (save_transcript e cfg w1 p ?m))\<lparr> files :=
                       cleanup_segments e segs p (files (snd (save_transcript e cfg w1 p ?m))) \<rparr>)
                else Some (False, snd (save_transcript e cfg w1 p ?m)))"
    using assms(3,4,5) ne by (simp add: process_audio_file_async_def Let_def)
  have ok: "\<exists>w2. process_audio_file_async e cfg w p = Some (True, w2)
                \<and> is_file (files w2) tp \<and> is_file (files w2) p
                \<and> (\<forall>seg \<in> set segs. seg_path seg \<noteq> p \<and> \<not> unlink_raises e (seg_path seg)
                       \<longrightarrow> \<not> path_exists (files w2) (seg_path seg))"
    if wr: "write_file e tp = Written"
  proof -
    let ?fs = "cleanup_segments e segs p (create_file tp (files w1))"
    have "\<exists>w2. process_audio_file_async e cfg w p = Some (True, w2) \<and> files w2 = ?fs"
      using run wr assms(6) by (simp add: save_transcript_def Let_def)
    moreover have "is_file ?fs tp" using tp by (simp add: cleanup_is_file is_file_create)
    moreover have "is_file ?fs p" using pw(2) by (simp add: cleanup_is_file is_file_create)
    moreover have "\<forall>seg \<in> set segs. seg_path seg \<noteq> p \<and> \<not> unlink_raises e (seg_path seg)
                       \<longrightarrow> \<not> path_exists ?fs (seg_path seg)"
      by (simp add: cleanup_path_exists)
    ultimately show ?thesis by auto
  qed
  have bad: "\<exists>w2. process_audio_file_async e cfg w p = Some (False, w2)
                \<and> (\<forall>x. path_exists (files w1) x \<longrightarrow> path_exists (files w2) x)
                \<and> is_file (files w2) p
                \<and> (write_file e tp = OpenRaises \<longrightarrow> \<not> path_exists (files w2) tp)"
    if wr: "write_file e tp \<noteq> Written"
  proof (cases "write_file e tp")
    case Written
    then show ?thesis using wr by simp
  next
    case OpenRaises
    then have "process_audio_file_async e cfg w p = Some (False, w1)"
      using run assms(6) by (simp add: save_transcript_def Let_def)
    then show ?thesis using pw(2) tp(2) by auto
  next
    case WriteRaises
    then have "\<exists>w2. process_audio_file_async e cfg w p = Some (False, w2)
                 \<and> files w2 = create_file tp (files w1)"
      using run assms(6) by (simp add: save_transcript_def Let_def)
    then show ?thesis using pw(2) WriteRaises
      by (auto simp: path_exists_create is_file_create)
  qed
  show ?thesis using pw(4) ok bad by blast
qed

lemma segment_name:
  "name (segment_path_of cfg src s) = fmt_0d 3 (segment_index cfg s) @ path_suffix src"
  "parent (segment_path_of cfg src s) = parent src"
  by (simp_all add: segment_path_of_def joinpath_def name_def parent_def)

lemma segment_suffix:
  assumes "path_suffix src \<noteq> []"
  shows "path_suffix (segment_path_of cfg src s) = path_suffix src"
proof -
  from assms have "suffix_of (name src) \<noteq> []" by (simp add: path_suffix_def)
  from suffix_of_shape [OF this]
  obtain r where r: "path_suffix src = 46 # r" "r \<noteq> []" "46 \<notin> set r"
    by (auto simp: path_suffix_def)
  have "suffix_of (fmt_0d 3 (segment_index cfg s) @ 46 # r) = 46 # r"
    using fmt_0d_chars r by (intro suffix_of_append) auto
  then show ?thesis using r(1) by (simp add: path_suffix_def [of "segment_path_of cfg src s"] segment_name)
qed

lemma segment_not_hidden: "\<not> startswith (name (segment_path_of cfg src s)) (lit ''.'')"
proof -
  obtain c cs where "fmt_0d 3 (segment_index cfg s) = c # cs" "c \<noteq> 46"
    using fmt_0d_chars [of 3 "segment_index cfg s"] by (cases "fmt_0d 3 (segment_index cfg s)") auto
  then show ?thesis by (simp add: segment_name startswith_def lit_def)
qed

lemma segment_below_dir:
  assumes "strict_prefix dir src"
  shows "strict_prefix dir (segment_path_of cfg src s)"
proof -
  from assms obtain y ys where "src = dir @ y # ys"
    by (auto simp: strict_prefix_def prefix_def) (metis list.exhaust append_Nil2)
  then have "segment_path_of cfg src s
             = dir @ (butlast (y # ys) @ [fmt_0d 3 (segment_index cfg s) @ path_suffix src])"
    by (simp add: segment_path_of_def joinpath_def parent_def butlast_append)
  then show ?thesis by (metis append_is_Nil_conv not_Cons_self2 prefixI self_append_conv strict_prefix_def)
qed

lemma segment_transcript_path:
  assumes "path_suffix src \<noteq> []"
  shows "get_transcript_path (segment_path_of cfg src s)
         = Some (joinpath (parent src) (fmt_0d 3 (segment_index cfg s) @ lit ''.txt''))"
proof -
  let ?sp = "segment_path_of cfg src s"
  let ?f = "fmt_0d 3 (segment_index cfg s)"
  have n: "name ?sp = ?f @ path_suffix src" and p: "parent ?sp = parent src"
    by (rule segment_name)+
  have sf: "path_suffix ?sp = path_suffix src" using assms by (rule segment_suffix)
  have "name ?sp \<noteq> []" using assms n by simp
  moreover have "take (length (name ?sp) - length (path_suffix ?sp)) (name ?sp) = ?f"
    by (simp add: n sf)
  ultimately show ?thesis using assms
    by (simp add: get_transcript_path_def with_suffix_def Let_def sf p)
qed

lemma lower_ascii:
  "lower ul [] = []"
  "lower ul (lit ''.txt'') = lit ''.txt''"
  by (simp_all add: lower_def lower_char_def lit_def)

text \<open>
  C10. The source is a file the inventory returns, and neither the empty string nor
  \<open>.txt\<close> is an audio extension (as in the default configuration). A sub-file the
  extractor creates from it lies in the source's directory, its name is the three-digit
  index followed by the source's suffix and nothing else, its suffix is the source's (so a
  supported one) and its name does not begin with a dot. In every tree where that
  sub-file is a regular file the inventory returns it. Its transcript path is the
  \<open>.txt\<close> file of the same index in the same directory, which is another path than the
  sub-file, and the sub-file needs transcription exactly as long as that path does not
  exist.
\<close>

theorem segment_file_is_candidate:
  assumes "src \<in> set (find_audio_files e cfg fs)"
      and "[] \<notin> set (audio_extensions cfg)"
      and "lit ''.txt'' \<notin> set (audio_extensions cfg)"
      and "create_segment_file e cfg w src s en = (Some sp, w')"
      and "is_file fs' sp"
  shows "is_file (files w') sp
       \<and> parent sp = parent src
       \<and> name sp = fmt_0d 3 (segment_index cfg s) @ path_suffix src
       \<and> path_suffix sp = path_suffix src
       \<and> lower (unicode_lower e) (path_suffix sp) \<in> set (audio_extensions cfg)
       \<and> \<not> startswith (name sp) (lit ''.'')
       \<and> sp \<in> set (find_audio_files e cfg fs')
       \<and> get_transcript_path sp
           = Some (joinpath (parent src) (fmt_0d 3 (segment_index cfg s) @ lit ''.txt''))
       \<and> joinpath (parent src) (fmt_0d 3 (segment_index cfg s) @ lit ''.txt'') \<noteq> sp
       \<and> needs_transcription fs' sp
           = Some (\<not> path_exists fs' (joinpath (parent src) (fmt_0d 3 (segment_index cfg s) @ lit ''.txt'')))"
proof -
  let ?f = "fmt_0d 3 (segment_index cfg s)"
  let ?tp = "joinpath (parent src) (?f @ lit ''.txt'')"
  from create_segment_file_world(3) [OF assms(4)]
  have sp: "sp = segment_path_of cfg src s" "files w' = create_file sp (files w)" by simp_all
  have src: "strict_prefix (audio_dir cfg) src"
            "lower (unicode_lower e) (path_suffix src) \<in> set (audio_extensions cfg)"
    using assms(1) by (auto simp: find_audio_files_def rglob_def)
  have sfx: "path_suffix src \<noteq> []"
  proof
    assume "path_suffix src = []"
    then have "[] \<in> set (audio_extensions cfg)" using src(2) by (simp add: lower_ascii)
    then show False using assms(2) by simp
  qed
  have ntxt: "path_suffix src \<noteq> lit ''.txt''"
  proof
    assume "path_suffix src = lit ''.txt''"
    then have "lit ''.txt'' \<in> set (audio_extensions cfg)" using src(2) by (simp add: lower_ascii)
    then show False using assms(3) by simp
  qed
  have a: "is_file (files w') sp" using sp(2) by (simp add: is_file_create)
  have b: "path_suffix sp = path_suffix src" using segment_suffix [OF sfx] sp(1) by simp
  have c: "\<not> startswith (name sp) (lit ''.'')" using segment_not_hidden sp(1) by simp
  have "sp \<in> set (map fst fs')" using assms(5) by (force simp: is_file_def)
  then have "sp \<in> set (rglob fs' (audio_dir cfg))"
    using segment_below_dir [OF src(1)] sp(1) by (simp add: rglob_def)
  then have d: "sp \<in> set (find_audio_files e cfg fs')"
    using assms(5) b c src(2) by (simp add: find_audio_files_def)
  have tp: "get_transcript_path sp = Some ?tp"
    unfolding sp(1) using sfx by (rule segment_transcript_path)
  have ne: "?tp \<noteq> sp"
  proof
    assume "?tp = sp"
    then have "?f @ lit ''.txt'' = ?f @ path_suffix src"
      by (simp add: sp(1) segment_path_of_def joinpath_def)
    then show False using ntxt by simp
  qed
  have nt: "needs_transcription fs' sp = Some (\<not> path_exists fs' ?tp)"
    by (simp add: needs_transcription_def tp)
  have nm: "parent sp = parent src" "name sp = ?f @ path_suffix src"
    using segment_name [of cfg src s] sp(1) by simp_all
  have l: "lower (unicode_lower e) (path_suffix sp) \<in> set (audio_extensions cfg)"
    using src(2) by (simp only: b)
  show ?thesis using a nm b l c d tp ne nt by (intro conjI)
qed

lemma talk_suffix: "path_suffix talk = lit ''.mp3''"
proof -
  have "name talk = lit ''talk'' @ 46 # lit ''mp3''" by (simp add: talk_def name_def lit_def)
  moreover have "suffix_of (lit ''talk'' @ 46 # lit ''mp3'') = 46 # lit ''mp3''"
    by (rule suffix_of_append) (simp_all add: lit_def)
  ultimately show ?thesis by (simp add: path_suffix_def lit_def)
qed

lemma talk_transcript: "get_transcript_path talk = Some talk_txt"
  using talk_suffix
  by (simp add: get_transcript_path_def with_suffix_def Let_def talk_txt_def)
     (simp add: talk_def name_def parent_def joinpath_def lit_def)

lemma talk_world0:
  "is_file (files world0) talk"
  "needs_transcription (files world0) talk = Some True"
  "0 < max_segment_duration (default_config [lit ''dl''])"
  by (simp_all add: needs_transcription_def talk_transcript)
     (simp_all add: world0_def is_file_def path_exists_def talk_txt_def talk_def lit_def
        default_config_def)

lemma talk_segment_1: "segment_path_of (default_config [lit ''dl'']) talk 0 = seg_file_1"
  by (simp add: segment_path_of_def talk_suffix segment_index_def py_int_def fmt_0d_def
      zfill_def dec.simps default_config_def seg_file_1_def eval_nat_numeral)
     (simp add: talk_def parent_def joinpath_def lit_def)

lemma talk_split:
  assumes "\<forall>s l q. ffmpeg e talk s l q = ExitZero" and "get_audio_duration e talk = 2700"
  shows "\<exists>w1 rest. split_audio_file e (default_config [lit ''dl'']) world0 talk
                     = Some ((seg_file_1, 0, 1800) # rest, w1)"
proof -
  let ?cfg = "default_config [lit ''dl'']"
  have mx: "max_segment_duration ?cfg = 1800" by (simp add: default_config_def)
  have n: "2 = nat \<lceil>2700 / max_segment_duration ?cfg\<rceil>" by (simp add: mx)
  have i: "max_segment_duration ?cfg = of_int 1800" "2700 + max_segment_duration ?cfg \<le> 2 ^ 53"
    by (simp_all add: mx)
  from split_loop_strides [OF talk_world0(3) i assms(1) n, of 0 "[]" world0]
  obtain w1 where "split_loop e ?cfg talk 2700 0 [] world0
                   = Some (map (planned_segment ?cfg talk 2700) [0 ..< 2], w1)"
    by auto
  moreover have "[0 ..< 2] = [0, Suc 0]" by (simp add: upt_rec)
  moreover have "planned_segment ?cfg talk 2700 0 = (seg_file_1, 0, 1800)"
    using talk_segment_1 by (simp add: planned_segment_def mx)
  ultimately show ?thesis using assms(2)
    by (simp add: split_audio_file_def mx)
qed

lemma batch_nonempty:
  assumes "seg \<in> set segs" and "transcribe_segment_async e cfg seg \<noteq> None"
  shows "transcribe_audio_parallel e cfg segs \<noteq> []"
proof -
  have "seg \<in> set (filter (\<lambda>x. transcribe_segment_async e cfg x \<noteq> None) (as_completed e segs))"
    using assms by (simp add: as_completed_def)
  then have "0 < length (filter (\<lambda>x. transcribe_segment_async e cfg x \<noteq> None) (as_completed e segs))"
    by (metis empty_iff list.set(1) length_greater_0_conv)
  moreover have "length (transcribe_audio_parallel e cfg segs)
        = length (filter (\<lambda>x. transcribe_segment_async e cfg x \<noteq> None) (as_completed e segs))"
    by (simp add: transcribe_audio_parallel_def map_filter_def sort_results_def)
  ultimately show ?thesis by (metis length_0_conv less_numeral_extra(3))
qed

lemma hello_transcribed:
  assumes "read_audio e = (\<lambda>p. True)" and "genai_importable e"
      and "gemini e = (\<lambda>p attempt. Stream [Some (lit ''hello'')])"
  shows "transcribe_segment_async e (default_config [lit ''dl'']) seg \<noteq> None"
  using assms by (cases seg) (simp add: eval_defs)

lemma raises_not_transcribed:
  assumes "gemini e = (\<lambda>p attempt. Raises)"
  shows "transcribe_segment_async e (default_config [lit ''dl'']) seg = None"
  using assms by (cases seg) (simp add: eval_defs)

text \<open>A forty-five-minute file whose remote calls all raise.\<close>

theorem all_segments_fail_witness:
  "\<exists>w1. process_audio_file_async env_all_fail (default_config [lit ''dl'']) world0 talk = Some (False, w1)
      \<and> written w1 = []
      \<and> needs_transcription (files w1) talk = Some True"
proof -
  have "\<forall>s l q. ffmpeg env_all_fail talk s l q = ExitZero"
       "get_audio_duration env_all_fail talk = 2700"
    by (simp_all add: env_all_fail_def env_ok_def get_audio_duration_def)
  from talk_split [OF this]
  obtain w1 rest where sp: "split_audio_file env_all_fail (default_config [lit ''dl'']) world0 talk
                     = Some ((seg_file_1, 0, 1800) # rest, w1)"
    by blast
  have "\<forall>seg \<in> set ((seg_file_1, 0, 1800) # rest).
          transcribe_segment_async env_all_fail (default_config [lit ''dl'']) seg = None"
    by (intro ballI raises_not_transcribed) (simp add: env_all_fail_def)
  from all_segments_fail [OF talk_world0(3,1,2) sp this]
  show ?thesis by (auto simp: world0_def)
qed

lemma process_after_write:
  assumes "needs_transcription (files w) p = Some True"
      and "split_audio_file e cfg w p = Some (segs, w1)"
      and "transcribe_audio_parallel e cfg segs \<noteq> []"
      and "get_transcript_path p = Some tp"
  shows "write_file e tp = Written \<Longrightarrow>
           \<exists>w2. process_audio_file_async e cfg w p = Some (True, w2)
              \<and> files w2 = cleanup_segments e segs p (create_file tp (files w1))"
    and "write_file e tp = WriteRaises \<Longrightarrow>
           \<exists>w2. process_audio_file_async e cfg w p = Some (False, w2)
              \<and> files w2 = create_file tp (files w1)"
    and "write_file e tp = OpenRaises \<Longrightarrow> process_audio_file_async e cfg w p = Some (False, w1)"
proof -
  have ne: "segs \<noteq> []" using assms(3)
    by (auto simp: transcribe_audio_parallel_def as_completed_def sort_results_def map_filter_def)
  show "write_file e tp = Written \<Longrightarrow>
           \<exists>w2. process_audio_file_async e cfg w p = Some (True, w2)
              \<and> files w2 = cleanup_segments e segs p (create_file tp (files w1))"
    using assms ne by (simp add: process_audio_file_async_def save_transcript_def Let_def)
  show "write_file e tp = WriteRaises \<Longrightarrow>
           \<exists>w2. process_audio_file_async e cfg w p = Some (False, w2)
              \<and> files w2 = create_file tp (files w1)"
    using assms ne by (simp add: process_audio_file_async_def save_transcript_def Let_def)
  show "write_file e tp = OpenRaises \<Longrightarrow> process_audio_file_async e cfg w p = Some (False, w1)"
    using assms ne by (simp add: process_audio_file_async_def save_transcript_def Let_def)
qed

lemma talk_run:
  assumes "\<forall>s l q. ffmpeg e talk s l q = ExitZero" and "get_audio_duration e talk = 2700"
      and "read_audio e = (\<lambda>p. True)" and "genai_importable e"
      and "gemini e = (\<lambda>p attempt. Stream [Some (lit ''hello'')])"
  shows "\<exists>w1 rest. split_audio_file e (default_config [lit ''dl'']) world0 talk
                      = Some ((seg_file_1, 0, 1800) # rest, w1)
                  \<and> transcribe_audio_parallel e (default_config [lit ''dl''])
                       ((seg_file_1, 0, 1800) # rest) \<noteq> []"
proof -
  from talk_split [OF assms(1,2)]
  obtain w1 rest where sp: "split_audio_file e (default_config [lit ''dl'']) world0 talk
                     = Some ((seg_file_1, 0, 1800) # rest, w1)"
    by blast
  have "transcribe_audio_parallel e (default_config [lit ''dl'']) ((seg_file_1, 0, 1800) # rest) \<noteq> []"
    by (rule batch_nonempty [of "(seg_file_1, 0, 1800)"]) (simp_all add: hello_transcribed [OF assms(3-5)])
  then show ?thesis using sp by blast
qed

text \<open>
  C8 as stated fails twice. After a successful write a segment file whose \<open>unlink\<close>
  raises stays (the handler logs it and goes on). And when \<open>open\<close> has made the
  transcript file and the write then raises, the call reports failure while a transcript
  file exists.
\<close>

theorem cleanup_skips_failed_unlink:
  "fst (the (process_audio_file_async env_unlink_raises (default_config [lit ''dl'']) world0 talk))
   \<and> path_exists (files (snd (the (process_audio_file_async env_unlink_raises
                                     (default_config [lit ''dl'']) world0 talk)))) seg_file_1
   \<and> \<not> fst (the (process_audio_file_async env_write_raises (default_config [lit ''dl'']) world0 talk))
   \<and> path_exists (files (snd (the (process_audio_file_async env_write_raises
                                     (default_config [lit ''dl'']) world0 talk)))) talk_txt"
proof -
  let ?cfg = "default_config [lit ''dl'']"
  have u: "\<exists>w2. process_audio_file_async env_unlink_raises ?cfg world0 talk = Some (True, w2)
             \<and> path_exists (files w2) seg_file_1"
  proof -
    from talk_run [of env_unlink_raises]
    obtain w1 rest where sp: "split_audio_file env_unlink_raises ?cfg world0 talk
                                = Some ((seg_file_1, 0, 1800) # rest, w1)"
        and b: "transcribe_audio_parallel env_unlink_raises ?cfg ((seg_file_1, 0, 1800) # rest) \<noteq> []"
      by (auto simp: env_unlink_raises_def env_ok_def get_audio_duration_def)
    have "write_file env_unlink_raises talk_txt = Written"
      by (simp add: env_unlink_raises_def env_ok_def)
    from process_after_write(1) [OF talk_world0(2) sp b talk_transcript this]
    obtain w2 where w2: "process_audio_file_async env_unlink_raises ?cfg world0 talk = Some (True, w2)"
        "files w2 = cleanup_segments env_unlink_raises ((seg_file_1, 0, 1800) # rest) talk
                      (create_file talk_txt (files w1))"
      by blast
    have "path_exists (files w1) seg_file_1"
      using planned_world(4) [OF talk_world0(3,1,2) sp] by (simp add: seg_path_def)
    moreover have "unlink_raises env_unlink_raises seg_file_1" by (simp add: env_unlink_raises_def)
    ultimately have "path_exists (files w2) seg_file_1"
      by (simp add: w2(2) cleanup_path_exists path_exists_create)
    then show ?thesis using w2(1) by blast
  qed
  have v: "\<exists>w2. process_audio_file_async env_write_raises ?cfg world0 talk = Some (False, w2)
             \<and> path_exists (files w2) talk_txt"
  proof -
    from talk_run [of env_write_raises]
    obtain w1 rest where sp: "split_audio_file env_write_raises ?cfg world0 talk
                                = Some ((seg_file_1, 0, 1800) # rest, w1)"
        and b: "transcribe_audio_parallel env_write_raises ?cfg ((seg_file_1, 0, 1800) # rest) \<noteq> []"
      by (auto simp: env_write_raises_def env_ok_def get_audio_duration_def)
    have "write_file env_write_raises talk_txt = WriteRaises"
      by (simp add: env_write_raises_def)
    from process_after_write(2) [OF talk_world0(2) sp b talk_transcript this]
    show ?thesis by (auto simp: path_exists_create)
  qed
  from u v show ?thesis by auto
qed

text \<open>The forty-five-minute file, everything succeeding.\<close>

theorem process_cleanup_witness:
  "\<exists>w2. process_audio_file_async (env_ok 2700) (default_config [lit ''dl'']) world0 talk = Some (True, w2)
      \<and> is_file (files w2) talk_txt \<and> is_file (files w2) talk
      \<and> \<not> path_exists (files w2) seg_file_1"
proof -
  let ?cfg = "default_config [lit ''dl'']"
  from talk_run [of "env_ok 2700"]
  obtain w1 rest where sp: "split_audio_file (env_ok 2700) ?cfg world0 talk
                              = Some ((seg_file_1, 0, 1800) # rest, w1)"
      and b: "transcribe_audio_parallel (env_ok 2700) ?cfg ((seg_file_1, 0, 1800) # rest) \<noteq> []"
    by (auto simp: env_ok_def get_audio_duration_def)
  have wr: "write_file (env_ok 2700) talk_txt = Written" "\<not> unlink_raises (env_ok 2700) seg_file_1"
    by (simp_all add: env_ok_def)
  have "seg_file_1 \<noteq> talk" by (simp add: seg_file_1_def talk_def lit_def)
  then show ?thesis
    using process_cleanup [OF talk_world0(3,1,2) sp b talk_transcript] wr
    by (auto simp: seg_path_def)
qed

lemma talk_found:
  "talk \<in> set (find_audio_files (env_ok 2700) (default_config [lit ''dl'']) (files world0))"
proof -
  have "strict_prefix [lit ''dl''] talk" by (simp add: talk_def)
  moreover have "lower (unicode_lower (env_ok 2700)) (path_suffix talk)
                 \<in> set (audio_extensions (default_config [lit ''dl'']))"
    by (simp add: talk_suffix default_config_def) (simp add: lower_def lower_char_def lit_def)
  moreover have "\<not> startswith (name talk) (lit ''.'')"
    by (simp add: startswith_def talk_def name_def lit_def)
  moreover have "is_file (files world0) talk" by (rule talk_world0(1))
  moreover have "talk \<in> set (map fst (files world0))" by (simp add: world0_def)
  ultimately show ?thesis
    by (simp add: find_audio_files_def rglob_def default_config_def)
qed

lemma seg_txt_1_name: "joinpath (parent talk) (fmt_0d 3 1 @ lit ''.txt'') = seg_txt_1"
  by (simp add: fmt_0d_def zfill_def dec.simps seg_txt_1_def eval_nat_numeral)
     (simp add: talk_def parent_def joinpath_def lit_def)

text \<open>
  The first sub-file of the example file, left behind in its directory: it is found, and
  it needs transcription until \<open>001.txt\<close> exists beside it.
\<close>

theorem segment_file_is_candidate_witness:
  "seg_file_1 \<in> set (find_audio_files (env_ok 2700) (default_config [lit ''dl'']) retained_tree)
   \<and> name seg_file_1 = fmt_0d 3 1 @ lit ''.mp3''
   \<and> lower (unicode_lower (env_ok 2700)) (path_suffix seg_file_1)
       \<in> set (audio_extensions (default_config [lit ''dl'']))
   \<and> get_transcript_path seg_file_1 = Some seg_txt_1
   \<and> seg_txt_1 \<noteq> seg_file_1
   \<and> needs_transcription retained_tree seg_file_1 = Some True
   \<and> seg_file_1 \<in> set (find_audio_files (env_ok 2700) (default_config [lit ''dl'']) transcribed_tree)
   \<and> needs_transcription transcribed_tree seg_file_1 = Some False"
proof -
  let ?cfg = "default_config [lit ''dl'']"
  let ?e = "env_ok 2700"
  have a: "[] \<notin> set (audio_extensions ?cfg)" "lit ''.txt'' \<notin> set (audio_extensions ?cfg)"
    by (simp_all add: default_config_def lit_def)
  have "max_segment_duration ?cfg \<noteq> 0" by (simp add: default_config_def)
  then have "\<exists>w'. create_segment_file ?e ?cfg world0 talk 0 1800 = (Some seg_file_1, w')"
    by (simp add: create_segment_file_def Let_def talk_segment_1 env_ok_def)
  then obtain w' where b: "create_segment_file ?e ?cfg world0 talk 0 1800 = (Some seg_file_1, w')"
    by blast
  have c: "is_file retained_tree seg_file_1" "is_file transcribed_tree seg_file_1"
    by (simp_all add: transcribed_tree_def retained_tree_def is_file_def)
  have i: "segment_index ?cfg 0 = 1" by (simp add: segment_index_def py_int_def)
  have x: "\<not> path_exists retained_tree seg_txt_1" "path_exists transcribed_tree seg_txt_1"
    by (simp_all add: transcribed_tree_def retained_tree_def path_exists_def seg_txt_1_def
        seg_file_1_def talk_def lit_def)
  note t = segment_file_is_candidate [OF talk_found a b c(1)]
  note u = segment_file_is_candidate [OF talk_found a b c(2)]
  have "name seg_file_1 = fmt_0d 3 (segment_index ?cfg 0) @ path_suffix talk" using t by blast
  then have n: "name seg_file_1 = fmt_0d 3 1 @ lit ''.mp3''" by (simp only: i talk_suffix)
  have f: "seg_file_1 \<in> set (find_audio_files ?e ?cfg retained_tree)" using t by blast
  have l: "lower (unicode_lower ?e) (path_suffix seg_file_1) \<in> set (audio_extensions ?cfg)"
    using t by blast
  have "get_transcript_path seg_file_1
        = Some (joinpath (parent talk) (fmt_0d 3 (segment_index ?cfg 0) @ lit ''.txt''))"
    using t by blast
  then have g: "get_transcript_path seg_file_1 = Some seg_txt_1" by (simp only: i seg_txt_1_name)
  have "joinpath (parent talk) (fmt_0d 3 (segment_index ?cfg 0) @ lit ''.txt'') \<noteq> seg_file_1"
    using t by blast
  then have ne: "seg_txt_1 \<noteq> seg_file_1" by (simp add: i seg_txt_1_name)
  have "needs_transcription retained_tree seg_file_1
        = Some (\<not> path_exists retained_tree
                    (joinpath (parent talk) (fmt_0d 3 (segment_index ?cfg 0) @ lit ''.txt'')))"
    using t by blast
  then have p: "needs_transcription retained_tree seg_file_1 = Some True"
    using x(1) by (simp only: i seg_txt_1_name) simp
  have f2: "seg_file_1 \<in> set (find_audio_files ?e ?cfg transcribed_tree)" using u by blast
  have "needs_transcription transcribed_tree seg_file_1
        = Some (\<not> path_exists transcribed_tree
                    (joinpath (parent talk) (fmt_0d 3 (segment_index ?cfg 0) @ lit ''.txt'')))"
    using u by blast
  then have p2: "needs_transcription transcribed_tree seg_file_1 = Some False"
    using x(2) by (simp only: i seg_txt_1_name) simp
  show ?thesis using f n l g ne p f2 p2 by (intro conjI)
qed

end
